theory Spec2Isabelle
  imports Complex_Main "HOL-Library.Stream" "HOL-Library.Multiset"
begin

section \<open>Python runtime: exceptions, the process-wide generator, sequences\<close>

text \<open>
  The exceptions the modelled code can raise. A computation that raises returns
  \<open>Inl\<close> of the exception; one that loops forever returns \<open>None\<close>.
\<close>

datatype error = IndexError | ValueError | StatisticsError | ZeroDivisionError

text \<open>
  The module \<^verbatim>\<open>random\<close> keeps one process-wide generator. It is modelled as the
  stream of the raw numbers it will still deliver; every draw consumes the head. The
  stream is arbitrary, so every behaviour of the real generator is one of the streams.
\<close>

type_synonym rng = "nat stream"

type_synonym 'a run = "(error + 'a \<times> rng) option"

definition and_then :: "'a run \<Rightarrow> ('a \<Rightarrow> rng \<Rightarrow> 'b run) \<Rightarrow> 'b run" where
  "and_then m f = (case m of None \<Rightarrow> None | Some (Inl e) \<Rightarrow> Some (Inl e) | Some (Inr (x, g)) \<Rightarrow> f x g)"

text \<open>
  \<^verbatim>\<open>random._randbelow(n)\<close>, for \<open>n > 0\<close>: a number below \<open>n\<close>. CPython draws
  bits until their value is below \<open>n\<close>; here the draw is the next number of the stream
  modulo \<open>n\<close>, so that every position below \<open>n\<close> is the draw of some stream.
\<close>

definition randbelow :: "nat \<Rightarrow> rng \<Rightarrow> nat \<times> rng" where
  "randbelow n g = (shd g mod n, stl g)"

text \<open>\<^verbatim>\<open>random.choice(seq)\<close>: IndexError on an empty sequence.\<close>

definition choice :: "'a list \<Rightarrow> rng \<Rightarrow> error + 'a \<times> rng" where
  "choice xs g =
     (if xs = [] then Inl IndexError
      else (case randbelow (length xs) g of (i, g') \<Rightarrow> Inr (xs ! i, g')))"

text \<open>\<^verbatim>\<open>seq[i]\<close> for a Python int \<open>i\<close>: a negative index counts from the end.\<close>

definition subscript :: "'a list \<Rightarrow> int \<Rightarrow> error + 'a" where
  "subscript xs i =
     (if 0 \<le> i \<and> i < int (length xs) then Inr (xs ! nat i)
      else if i < 0 \<and> - int (length xs) \<le> i then Inr (xs ! nat (int (length xs) + i))
      else Inl IndexError)"

section \<open>game_simulator.py\<close>

text \<open>
  \<^verbatim>\<open>class Player\<close>: the constructor stores its arguments and derives \<open>hits\<close>
  and \<open>outs\<close>.
\<close>

record Player =
  name :: string
  ab :: int
  singles :: int
  doubles :: int
  triples :: int
  homers :: int
  hits :: int
  outs :: int

definition new_Player :: "string \<Rightarrow> int \<Rightarrow> int \<Rightarrow> int \<Rightarrow> int \<Rightarrow> int \<Rightarrow> Player" where
  "new_Player nm a s d t h =
     \<lparr>name = nm, ab = a, singles = s, doubles = d, triples = t, homers = h,
      hits = s + d + t + h, outs = a - (s + d + t + h)\<rparr>"

text \<open>
  \<^verbatim>\<open>player_hit\<close>: the token list, then a uniform draw from it. A Python list
  repeated a negative number of times is empty, as \<open>replicate (nat n)\<close> is.
\<close>

definition outcomes :: "Player \<Rightarrow> string list" where
  "outcomes p =
     replicate (nat (outs p)) ''out'' @ replicate (nat (singles p)) ''1B''
     @ replicate (nat (doubles p)) ''2B'' @ replicate (nat (triples p)) ''3B''
     @ replicate (nat (homers p)) ''HR''"

definition player_hit :: "Player \<Rightarrow> rng \<Rightarrow> error + string \<times> rng" where
  "player_hit p g = choice (outcomes p) g"

text \<open>
  The local variables of \<^verbatim>\<open>simulate_inning\<close>: \<open>bases[0]\<close>, \<open>bases[1]\<close>,
  \<open>bases[2]\<close>, \<open>outs\<close>, \<open>runs\<close> and \<open>current_batter\<close>.
\<close>

record inning_state =
  first_base :: "Player option"
  second_base :: "Player option"
  third_base :: "Player option"
  n_outs :: int
  n_runs :: int
  current_batter :: int

definition initial_state :: "int \<Rightarrow> inning_state" where
  "initial_state batter_index =
     \<lparr>first_base = None, second_base = None, third_base = None,
      n_outs = 0, n_runs = 0, current_batter = batter_index\<rparr>"

text \<open>\<^verbatim>\<open>sum(1 for base in bases if base is not None)\<close>\<close>

definition occupied :: "inning_state \<Rightarrow> int" where
  "occupied s =
     (if first_base s \<noteq> None then 1 else 0) + (if second_base s \<noteq> None then 1 else 0)
     + (if third_base s \<noteq> None then 1 else 0)"

text \<open>
  The \<^verbatim>\<open>if\<close>/\<^verbatim>\<open>elif\<close> chain of the loop body. A Player object is always
  truthy, so \<^verbatim>\<open>if bases[2]:\<close> tests for \<open>None\<close>. A label outside the five
  changes nothing.
\<close>

definition apply_result :: "string \<Rightarrow> Player \<Rightarrow> inning_state \<Rightarrow> inning_state" where
  "apply_result result player s =
     (if result = ''out'' then s\<lparr>n_outs := n_outs s + 1\<rparr>
      else if result = ''1B'' then
        s\<lparr>n_runs := (if third_base s \<noteq> None then n_runs s + 1 else n_runs s),
          third_base := second_base s, second_base := first_base s,
          first_base := Some player\<rparr>
      else if result = ''2B'' then
        s\<lparr>n_runs := n_runs s + (if second_base s \<noteq> None then 1 else 0)
                    + (if third_base s \<noteq> None then 1 else 0),
          third_base := first_base s, second_base := Some player, first_base := None\<rparr>
      else if result = ''3B'' then
        s\<lparr>n_runs := n_runs s + occupied s,
          first_base := None, second_base := None, third_base := Some player\<rparr>
      else if result = ''HR'' then
        s\<lparr>n_runs := n_runs s + (occupied s + 1),
          first_base := None, second_base := None, third_base := None\<rparr>
      else s)"

text \<open>
  One pass through the body of \<^verbatim>\<open>while outs < 3\<close>: look the batter up, draw the
  outcome, apply it, advance the cursor modulo the lineup length.
\<close>

definition at_bat :: "Player list \<Rightarrow> inning_state \<Rightarrow> rng \<Rightarrow> error + inning_state \<times> rng" where
  "at_bat lineup s g =
     (case subscript lineup (current_batter s) of
        Inl e \<Rightarrow> Inl e
      | Inr player \<Rightarrow>
          (case player_hit player g of
             Inl e \<Rightarrow> Inl e
           | Inr (result, g') \<Rightarrow>
               if length lineup = 0 then Inl ZeroDivisionError
               else Inr ((apply_result result player s)
                           \<lparr>current_batter := (current_batter s + 1) mod int (length lineup)\<rparr>, g')))"

text \<open>The loop itself; it need not terminate, and then its value is \<open>None\<close>.\<close>

partial_function (option) inning_loop :: "Player list \<Rightarrow> inning_state \<Rightarrow> rng \<Rightarrow> inning_state run" where
  "inning_loop lineup s g =
     (if n_outs s < 3 then
        (case at_bat lineup s g of
           Inl e \<Rightarrow> Some (Inl e)
         | Inr (s', g') \<Rightarrow> inning_loop lineup s' g')
      else Some (Inr (s, g)))"

definition simulate_inning :: "Player list \<Rightarrow> int \<Rightarrow> rng \<Rightarrow> (int \<times> int) run" where
  "simulate_inning lineup batter_index g =
     and_then (inning_loop lineup (initial_state batter_index) g)
       (\<lambda>s g'. Some (Inr ((n_runs s, current_batter s), g')))"

text \<open>The dictionary \<^verbatim>\<open>simulate_game\<close> returns, as a record of its three keys.\<close>

record game_result =
  total_runs :: int
  inning_scores :: "int list"
  game_lineup :: "string list"

text \<open>
  The \<^verbatim>\<open>for inning in range(innings)\<close> loop, with the iterations that remain as
  first argument and the loop variables \<open>total_runs\<close>, \<open>inning_scores\<close> and
  \<open>batter_index\<close> as accumulator.
\<close>

fun game_loop :: "nat \<Rightarrow> Player list \<Rightarrow> int \<times> int list \<times> int \<Rightarrow> rng \<Rightarrow> (int \<times> int list \<times> int) run" where
  "game_loop 0 lineup acc g = Some (Inr (acc, g))"
| "game_loop (Suc k) lineup (tot, scores, batter_index) g =
     and_then (simulate_inning lineup batter_index g)
       (\<lambda>(runs, next_batter) g'. game_loop k lineup (tot + runs, scores @ [runs], next_batter) g')"

definition simulate_game :: "Player list \<Rightarrow> int \<Rightarrow> rng \<Rightarrow> game_result run" where
  "simulate_game lineup innings g =
     and_then (game_loop (nat innings) lineup (0, [], 0) g)
       (\<lambda>(tot, scores, batter_index) g'.
          Some (Inr (\<lparr>total_runs = tot, inning_scores = scores,
                      game_lineup = map name lineup\<rparr>, g')))"

section \<open>lineup_optimizer.py\<close>

text \<open>
  \<^verbatim>\<open>random.sample(population, k)\<close>: ValueError unless \<open>0 \<le> k \<le> n\<close>, then \<open>k\<close>
  draws without replacement. Each draw takes the element at a random position of the
  pool and moves the last element of the pool into the vacancy, as CPython does for a
  small population (for a large one it redraws repeated positions instead; the lists
  it can return are the same).
\<close>

fun draw_k :: "nat \<Rightarrow> 'a list \<Rightarrow> rng \<Rightarrow> 'a list \<times> rng" where
  "draw_k 0 pool g = ([], g)"
| "draw_k (Suc k) pool g =
     (case randbelow (length pool) g of
        (j, g1) \<Rightarrow>
          (case draw_k k (butlast (pool[j := last pool])) g1 of
             (rest, g2) \<Rightarrow> (pool ! j # rest, g2)))"

definition sample :: "'a list \<Rightarrow> int \<Rightarrow> rng \<Rightarrow> error + 'a list \<times> rng" where
  "sample pool k g =
     (if 0 \<le> k \<and> k \<le> int (length pool) then Inr (draw_k (nat k) pool g)
      else Inl ValueError)"

text \<open>
  \<^verbatim>\<open>class LineupResult\<close>. \<^verbatim>\<open>statistics.mean\<close> raises StatisticsError on an
  empty list; the mean is kept as the exact quotient (Python rounds it to a double). The
  field \<open>std_dev\<close>, a square root no function here reads, is left out.
\<close>

record LineupResult =
  result_lineup :: "Player list"
  runs_per_game :: "int list"
  mean_runs :: rat
  total_games :: nat

definition new_LineupResult :: "Player list \<Rightarrow> int list \<Rightarrow> error + LineupResult" where
  "new_LineupResult lineup rs =
     (if rs = [] then Inl StatisticsError
      else Inr \<lparr>result_lineup = lineup, runs_per_game = rs,
                mean_runs = of_int (sum_list rs) / of_nat (length rs),
                total_games = length rs\<rparr>)"

definition generate_random_lineup :: "Player list \<Rightarrow> int \<Rightarrow> rng \<Rightarrow> error + Player list \<times> rng" where
  "generate_random_lineup roster lineup_sz g =
     (if lineup_sz > int (length roster) then sample roster (int (length roster)) g
      else sample roster lineup_sz g)"

text \<open>The \<^verbatim>\<open>for _ in range(num_games)\<close> loop of \<^verbatim>\<open>evaluate_lineup\<close>.\<close>

fun games_loop :: "nat \<Rightarrow> Player list \<Rightarrow> int \<Rightarrow> int list \<Rightarrow> rng \<Rightarrow> (int list) run" where
  "games_loop 0 lineup innings acc g = Some (Inr (acc, g))"
| "games_loop (Suc k) lineup innings acc g =
     and_then (simulate_game lineup innings g)
       (\<lambda>game g'. games_loop k lineup innings (acc @ [total_runs game]) g')"

definition evaluate_lineup :: "Player list \<Rightarrow> int \<Rightarrow> int \<Rightarrow> rng \<Rightarrow> LineupResult run" where
  "evaluate_lineup lineup num_games innings g =
     and_then (games_loop (nat num_games) lineup innings [] g)
       (\<lambda>rs g'. case new_LineupResult lineup rs of
                   Inl e \<Rightarrow> Some (Inl e)
                 | Inr result \<Rightarrow> Some (Inr (result, g')))"

section \<open>genetic_optimizer.py\<close>

text \<open>Python's \<^verbatim>\<open>max(seq, key=f)\<close>: ValueError on an empty sequence, the first
  maximal element otherwise.\<close>

definition py_max :: "('a \<Rightarrow> 'b::linorder) \<Rightarrow> 'a list \<Rightarrow> error + 'a" where
  "py_max key xs =
     (case xs of
        [] \<Rightarrow> Inl ValueError
      | x # rest \<Rightarrow> Inr (foldl (\<lambda>best y. if key best < key y then y else best) x rest))"

text \<open>\<^verbatim>\<open>seq.index(v)\<close>: the first position of \<open>v\<close>, ValueError when there is none.\<close>

fun index_of :: "'a \<Rightarrow> 'a list \<Rightarrow> error + nat" where
  "index_of v [] = Inl ValueError"
| "index_of v (x # xs) =
     (if x = v then Inr 0
      else (case index_of v xs of Inl e \<Rightarrow> Inl e | Inr i \<Rightarrow> Inr (Suc i)))"

text \<open>\<^verbatim>\<open>random.random()\<close>: a multiple of \<open>2 ^ - 53\<close> in \<open>[0, 1)\<close>.\<close>

definition random_unit :: "rng \<Rightarrow> rat \<times> rng" where
  "random_unit g = (of_nat (shd g mod 2 ^ 53) / 2 ^ 53, stl g)"

text \<open>\<^verbatim>\<open>seq[a:b]\<close> for \<open>0 \<le> a\<close> and \<open>0 \<le> b\<close>.\<close>

definition slice :: "nat \<Rightarrow> nat \<Rightarrow> 'a list \<Rightarrow> 'a list" where
  "slice a b xs = take (b - a) (drop a xs)"

text \<open>
  \<^verbatim>\<open>class GeneticLineupOptimizer\<close>: the attributes, and the constructor with its
  clamp of \<open>lineup_size\<close>. The cache is keyed by the tuple of the names in batting order.
\<close>

record optimizer =
  players :: "Player list"
  lineup_size :: int
  population_size :: int
  mutation_rate :: rat
  tournament_size :: int
  population :: "Player list list"
  fitness_cache :: "string list \<rightharpoonup> rat"

definition new_optimizer :: "Player list \<Rightarrow> int \<Rightarrow> int \<Rightarrow> rat \<Rightarrow> int \<Rightarrow> optimizer" where
  "new_optimizer roster lineup_sz population_sz rate tournament_sz =
     \<lparr>players = roster, lineup_size = min lineup_sz (int (length roster)),
      population_size = population_sz, mutation_rate = rate,
      tournament_size = tournament_sz, population = [], fitness_cache = Map.empty\<rparr>"

definition create_random_lineup :: "optimizer \<Rightarrow> rng \<Rightarrow> error + Player list \<times> rng" where
  "create_random_lineup opt g = sample (players opt) (lineup_size opt) g"

text \<open>The loop of \<^verbatim>\<open>initialize_population\<close>, which starts from the empty list.\<close>

fun fill_random :: "nat \<Rightarrow> optimizer \<Rightarrow> Player list list \<Rightarrow> rng \<Rightarrow> error + Player list list \<times> rng" where
  "fill_random 0 opt pop g = Inr (pop, g)"
| "fill_random (Suc k) opt pop g =
     (case create_random_lineup opt g of
        Inl e \<Rightarrow> Inl e
      | Inr (lineup, g') \<Rightarrow> fill_random k opt (pop @ [lineup]) g')"

definition initialize_population :: "optimizer \<Rightarrow> rng \<Rightarrow> error + optimizer \<times> rng" where
  "initialize_population opt g =
     (case fill_random (nat (population_size opt)) opt [] g of
        Inl e \<Rightarrow> Inl e
      | Inr (pop, g') \<Rightarrow> Inr (opt\<lparr>population := pop\<rparr>, g'))"

definition evaluate_fitness :: "optimizer \<Rightarrow> Player list \<Rightarrow> int \<Rightarrow> int \<Rightarrow> rng \<Rightarrow> (rat \<times> optimizer) run" where
  "evaluate_fitness opt lineup num_games innings g =
     (let lineup_key = map name lineup in
      case fitness_cache opt lineup_key of
        None \<Rightarrow>
          and_then (evaluate_lineup lineup num_games innings g)
            (\<lambda>result g'.
               Some (Inr ((mean_runs result,
                           opt\<lparr>fitness_cache := (fitness_cache opt)(lineup_key \<mapsto> mean_runs result)\<rparr>), g')))
      | Some fitness \<Rightarrow> Some (Inr ((fitness, opt), g)))"

text \<open>\<^verbatim>\<open>[(i, fitness_scores[i]) for i in tournament_indices]\<close>\<close>

fun pair_fitness :: "nat list \<Rightarrow> rat list \<Rightarrow> error + (nat \<times> rat) list" where
  "pair_fitness [] fitness_scores = Inr []"
| "pair_fitness (i # rest) fitness_scores =
     (case subscript fitness_scores (int i) of
        Inl e \<Rightarrow> Inl e
      | Inr f \<Rightarrow>
          (case pair_fitness rest fitness_scores of
             Inl e \<Rightarrow> Inl e
           | Inr ps \<Rightarrow> Inr ((i, f) # ps)))"

definition tournament_selection :: "optimizer \<Rightarrow> 'a list list \<Rightarrow> rat list \<Rightarrow> rng \<Rightarrow> error + 'a list \<times> rng" where
  "tournament_selection opt pop fitness_scores g =
     (case sample [0..<length pop] (tournament_size opt) g of
        Inl e \<Rightarrow> Inl e
      | Inr (tournament_indices, g') \<Rightarrow>
          (case pair_fitness tournament_indices fitness_scores of
             Inl e \<Rightarrow> Inl e
           | Inr tournament_fitness \<Rightarrow>
               (case py_max snd tournament_fitness of
                  Inl e \<Rightarrow> Inl e
                | Inr winner \<Rightarrow>
                    (case subscript pop (int (fst winner)) of
                       Inl e \<Rightarrow> Inl e
                     | Inr lineup \<Rightarrow> Inr (lineup, g')))))"

text \<open>
  The two filling loops of \<^verbatim>\<open>order_crossover\<close>: for each position \<open>i\<close>,
  \<^verbatim>\<open>child[i] = parent2_filtered[p2_idx]\<close> and \<^verbatim>\<open>p2_idx += 1\<close>. A read or a write
  out of range raises IndexError.
\<close>

fun fill_positions :: "nat list \<Rightarrow> 'a option list \<Rightarrow> 'a list \<Rightarrow> nat \<Rightarrow> error + 'a option list \<times> nat" where
  "fill_positions [] child parent2_filtered p2_idx = Inr (child, p2_idx)"
| "fill_positions (i # rest) child parent2_filtered p2_idx =
     (if p2_idx < length parent2_filtered \<and> i < length child then
        fill_positions rest (child[i := Some (parent2_filtered ! p2_idx)]) parent2_filtered (Suc p2_idx)
      else Inl IndexError)"

text \<open>
  \<^verbatim>\<open>order_crossover\<close> after the cut points are drawn. The child starts as
  \<^verbatim>\<open>[None] * size\<close>; the slice assignment copies the segment of \<open>parent1\<close>; the
  membership test \<^verbatim>\<open>p not in child[start:end]\<close> compares Player objects, which are
  equal only to themselves; here an object is its field values, and the names within a
  roster are unique. Every slot is filled when both loops are through, so the child is
  returned without its \<open>Some\<close>.
\<close>

definition ox_child :: "'a list \<Rightarrow> 'a list \<Rightarrow> nat \<Rightarrow> nat \<Rightarrow> error + 'a list" where
  "ox_child parent1 parent2 start stop =
     (let size = length parent1;
          child0 = replicate size None;
          child1 = take start child0 @ map Some (slice start stop parent1) @ drop stop child0;
          parent2_filtered = filter (\<lambda>p. Some p \<notin> set (slice start stop child1)) parent2
      in case fill_positions [0..<start] child1 parent2_filtered 0 of
           Inl e \<Rightarrow> Inl e
         | Inr (child2, p2_idx) \<Rightarrow>
             (case fill_positions [stop..<size] child2 parent2_filtered p2_idx of
                Inl e \<Rightarrow> Inl e
              | Inr (child3, p2_idx') \<Rightarrow> Inr (map the child3)))"

text \<open>
  \<^verbatim>\<open>start, end = sorted(random.sample(range(size), 2))\<close>, then the child. Unpacking
  anything but two values raises ValueError.
\<close>

definition order_crossover :: "'a list \<Rightarrow> 'a list \<Rightarrow> rng \<Rightarrow> error + 'a list \<times> rng" where
  "order_crossover parent1 parent2 g =
     (case sample [0..<length parent1] 2 g of
        Inl e \<Rightarrow> Inl e
      | Inr (cuts, g') \<Rightarrow>
          (case sort cuts of
             [start, stop] \<Rightarrow>
               (case ox_child parent1 parent2 start stop of
                  Inl e \<Rightarrow> Inl e
                | Inr child \<Rightarrow> Inr (child, g'))
           | _ \<Rightarrow> Inl ValueError))"

definition swap_mutation :: "optimizer \<Rightarrow> 'a list \<Rightarrow> rng \<Rightarrow> error + 'a list \<times> rng" where
  "swap_mutation opt lineup g =
     (case random_unit g of
        (u, g1) \<Rightarrow>
          if u < mutation_rate opt then
            (case sample [0..<length lineup] 2 g1 of
               Inl e \<Rightarrow> Inl e
             | Inr (ij, g2) \<Rightarrow>
                 (case ij of
                    [i, j] \<Rightarrow> Inr ((lineup[i := lineup ! j])[j := lineup ! i], g2)
                  | _ \<Rightarrow> Inl ValueError))
          else Inr (lineup, g1))"

text \<open>The evaluation loop of \<^verbatim>\<open>evolve_generation\<close>; the cache is threaded through.\<close>

fun eval_population :: "Player list list \<Rightarrow> optimizer \<Rightarrow> int \<Rightarrow> int \<Rightarrow> rat list \<Rightarrow> rng \<Rightarrow> (rat list \<times> optimizer) run" where
  "eval_population [] opt num_games innings fitness_scores g = Some (Inr ((fitness_scores, opt), g))"
| "eval_population (lineup # rest) opt num_games innings fitness_scores g =
     and_then (evaluate_fitness opt lineup num_games innings g)
       (\<lambda>(fitness, opt') g'. eval_population rest opt' num_games innings (fitness_scores @ [fitness]) g')"

text \<open>\<^verbatim>\<open>while len(new_population) < self.population_size\<close>: one child per pass.\<close>

function breed :: "optimizer \<Rightarrow> Player list list \<Rightarrow> rat list \<Rightarrow> Player list list \<Rightarrow> rng \<Rightarrow> error + Player list list \<times> rng" where
  "breed opt pop fitness_scores new_population g =
     (if int (length new_population) < population_size opt then
        (case tournament_selection opt pop fitness_scores g of
           Inl e \<Rightarrow> Inl e
         | Inr (parent1, g1) \<Rightarrow>
             (case tournament_selection opt pop fitness_scores g1 of
                Inl e \<Rightarrow> Inl e
              | Inr (parent2, g2) \<Rightarrow>
                  (case order_crossover parent1 parent2 g2 of
                     Inl e \<Rightarrow> Inl e
                   | Inr (child, g3) \<Rightarrow>
                       (case swap_mutation opt child g3 of
                          Inl e \<Rightarrow> Inl e
                        | Inr (mutated, g4) \<Rightarrow>
                            breed opt pop fitness_scores (new_population @ [mutated]) g4))))
      else Inr (new_population, g))"
  by pat_completeness auto
termination
  by (relation "measure (\<lambda>(opt, pop, fitness_scores, new_population, g).
        nat (population_size opt - int (length new_population)))") auto

declare breed.simps [simp del]

definition evolve_generation :: "optimizer \<Rightarrow> int \<Rightarrow> int \<Rightarrow> rng \<Rightarrow> ((rat list \<times> rat) \<times> optimizer) run" where
  "evolve_generation opt num_games innings g =
     and_then (eval_population (population opt) opt num_games innings [] g)
       (\<lambda>(fitness_scores, opt1) g1.
          case py_max (\<lambda>f. f) fitness_scores of
            Inl e \<Rightarrow> Some (Inl e)
          | Inr best \<Rightarrow>
              (case index_of best fitness_scores of
                 Inl e \<Rightarrow> Some (Inl e)
               | Inr best_idx \<Rightarrow>
                   (case subscript (population opt1) (int best_idx) of
                      Inl e \<Rightarrow> Some (Inl e)
                    | Inr elite \<Rightarrow>
                        (case breed opt1 (population opt1) fitness_scores [elite] g1 of
                           Inl e \<Rightarrow> Some (Inl e)
                         | Inr (new_population, g2) \<Rightarrow>
                             Some (Inr (((fitness_scores, best),
                                         opt1\<lparr>population := new_population\<rparr>), g2))))))"

text \<open>The generation loop of \<^verbatim>\<open>optimize\<close>, collecting \<open>best_fitness_history\<close>.\<close>

fun generations_loop :: "nat \<Rightarrow> optimizer \<Rightarrow> int \<Rightarrow> int \<Rightarrow> rat list \<Rightarrow> rng \<Rightarrow> (rat list \<times> optimizer) run" where
  "generations_loop 0 opt num_games innings history g = Some (Inr ((history, opt), g))"
| "generations_loop (Suc k) opt num_games innings history g =
     and_then (evolve_generation opt num_games innings g)
       (\<lambda>((fitness_scores, best_fitness), opt') g'.
          generations_loop k opt' num_games innings (history @ [best_fitness]) g')"

text \<open>The final evaluation loop of \<^verbatim>\<open>optimize\<close>: twice the games, no cache.\<close>

fun final_evaluation :: "Player list list \<Rightarrow> int \<Rightarrow> int \<Rightarrow> LineupResult list \<Rightarrow> rng \<Rightarrow> (LineupResult list) run" where
  "final_evaluation [] num_games innings final_results g = Some (Inr (final_results, g))"
| "final_evaluation (lineup # rest) num_games innings final_results g =
     and_then (evaluate_lineup lineup (num_games * 2) innings g)
       (\<lambda>result g'. final_evaluation rest num_games innings (final_results @ [result]) g')"

text \<open>
  \<^verbatim>\<open>sorted(final_results, key=..., reverse=True)\<close>: stable, so equal means keep
  their order.
\<close>

definition sorted_results :: "LineupResult list \<Rightarrow> LineupResult list" where
  "sorted_results final_results = rev (sort_key mean_runs (rev final_results))"

text \<open>
  \<^verbatim>\<open>optimize\<close>. It begins with \<^verbatim>\<open>self.initialize_population()\<close>. Printing is not
  modelled, but the verbose summary reads \<^verbatim>\<open>best_fitness_history[0]\<close> and takes
  \<^verbatim>\<open>max(final_fitness_scores)\<close>, which raise on empty lists.
\<close>

definition optimize :: "optimizer \<Rightarrow> int \<Rightarrow> int \<Rightarrow> int \<Rightarrow> bool \<Rightarrow> rng \<Rightarrow> (LineupResult list \<times> optimizer) run" where
  "optimize opt generations num_games innings verbose g =
     (case initialize_population opt g of
        Inl e \<Rightarrow> Some (Inl e)
      | Inr (opt0, g0) \<Rightarrow>
          and_then (generations_loop (nat generations) opt0 num_games innings [] g0)
            (\<lambda>(best_fitness_history, opt1) g1.
               and_then (final_evaluation (population opt1) num_games innings [] g1)
                 (\<lambda>final_results g2.
                    if verbose \<and> best_fitness_history = [] then Some (Inl IndexError)
                    else if verbose \<and> final_results = [] then Some (Inl ValueError)
                    else Some (Inr ((sorted_results final_results, opt1), g2)))))"

section \<open>master_optimizer.py\<close>

text \<open>\<^verbatim>\<open>while len(ga_optimizer.population) < population_size\<close> in
  \<^verbatim>\<open>run_genetic_phase\<close>: pad the seeded population with random lineups.\<close>

function pad_population :: "optimizer \<Rightarrow> int \<Rightarrow> rng \<Rightarrow> error + optimizer \<times> rng" where
  "pad_population opt population_sz g =
     (if int (length (population opt)) < population_sz then
        (case create_random_lineup opt g of
           Inl e \<Rightarrow> Inl e
         | Inr (random_lineup, g') \<Rightarrow>
             pad_population (opt\<lparr>population := population opt @ [random_lineup]\<rparr>) population_sz g')
      else Inr (opt, g))"
  by pat_completeness auto
termination
  by (relation "measure (\<lambda>(opt, population_sz, g).
        nat (population_sz - int (length (population opt))))") auto

declare pad_population.simps [simp del]

text \<open>
  \<^verbatim>\<open>MasterLineupOptimizer.run_genetic_phase\<close>, with \<^verbatim>\<open>self.players\<close> as first
  argument: build the optimizer, seed its population with the lineups of
  \<open>seed_lineups\<close>, pad it, run \<^verbatim>\<open>optimize\<close>. The verbose report reads
  \<^verbatim>\<open>ga_results[0]\<close> when there are seeds.
\<close>

definition run_genetic_phase ::
  "Player list \<Rightarrow> LineupResult list \<Rightarrow> int \<Rightarrow> int \<Rightarrow> int \<Rightarrow> int \<Rightarrow> int \<Rightarrow> rat \<Rightarrow> int \<Rightarrow> bool \<Rightarrow> rng
     \<Rightarrow> (LineupResult list) run" where
  "run_genetic_phase roster seed_lineups population_sz generations num_games lineup_sz innings
       rate tournament_sz verbose g =
     (let ga_optimizer = new_optimizer roster lineup_sz population_sz rate tournament_sz;
          seeded = ga_optimizer\<lparr>population := map result_lineup seed_lineups\<rparr>
      in case pad_population seeded population_sz g of
           Inl e \<Rightarrow> Some (Inl e)
         | Inr (padded, g1) \<Rightarrow>
             and_then (optimize padded generations num_games innings verbose g1)
               (\<lambda>(ga_results, opt') g2.
                  if verbose \<and> seed_lineups \<noteq> [] \<and> ga_results = [] then Some (Inl IndexError)
                  else Some (Inr (ga_results, g2))))"

section \<open>Notions used in the properties\<close>

text \<open>
  The invariant of a Player: no negative count, \<open>hits\<close> and \<open>outs\<close> as the constructor
  derives them. A valid Player has moreover at least one at-bat.
\<close>

definition counts_ok :: "Player \<Rightarrow> bool" where
  "counts_ok p \<longleftrightarrow>
     0 \<le> singles p \<and> 0 \<le> doubles p \<and> 0 \<le> triples p \<and> 0 \<le> homers p \<and> 0 \<le> outs p
     \<and> hits p = singles p + doubles p + triples p + homers p \<and> outs p = ab p - hits p"

definition valid_player :: "Player \<Rightarrow> bool" where
  "valid_player p \<longleftrightarrow> counts_ok p \<and> 0 < ab p"

text \<open>
  The loop of \<^verbatim>\<open>simulate_inning\<close> cut off after \<open>k\<close> at-bats: the state it has
  reached by then, or the exception raised on the way.
\<close>

fun inning_steps :: "nat \<Rightarrow> Player list \<Rightarrow> inning_state \<Rightarrow> rng \<Rightarrow> error + inning_state \<times> rng" where
  "inning_steps 0 lineup s g = Inr (s, g)"
| "inning_steps (Suc k) lineup s g =
     (if n_outs s < 3 then
        (case at_bat lineup s g of
           Inl e \<Rightarrow> Inl e
         | Inr (s', g') \<Rightarrow> inning_steps k lineup s' g')
      else Inr (s, g))"

definition finished :: "error + inning_state \<times> rng \<Rightarrow> bool" where
  "finished r = (case r of Inl e \<Rightarrow> True | Inr (s, g) \<Rightarrow> \<not> n_outs s < 3)"

text \<open>
  A chain of innings: the first starts at cursor \<open>c\<close> with generator \<open>g\<close>, each next
  one starts where the one before stopped; \<open>rs\<close> are the runs of the innings, \<open>c'\<close>
  and \<open>g'\<close> the cursor and the generator after the last.
\<close>

fun innings_from :: "Player list \<Rightarrow> int \<Rightarrow> rng \<Rightarrow> int list \<Rightarrow> int \<Rightarrow> rng \<Rightarrow> bool" where
  "innings_from lineup c g [] c' g' \<longleftrightarrow> c' = c \<and> g' = g"
| "innings_from lineup c g (r # rs) c' g' \<longleftrightarrow>
     (case simulate_inning lineup c g of
        Some (Inr ((r1, c1), g1)) \<Rightarrow> r1 = r \<and> innings_from lineup c1 g1 rs c' g'
      | _ \<Rightarrow> False)"

text \<open>
  The invariant of the inning loop: the cursor is a valid index (not negative once an
  at-bat has been taken), at most three outs, no negative run total.
\<close>

definition in_play :: "Player list \<Rightarrow> inning_state \<Rightarrow> bool" where
  "in_play lineup s \<longleftrightarrow>
     - int (length lineup) \<le> current_batter s \<and> current_batter s < int (length lineup)
     \<and> (n_outs s = 0 \<or> 0 \<le> current_batter s) \<and> n_outs s \<le> 3 \<and> 0 \<le> n_runs s"

section \<open>Properties of the simulation\<close>

subsection \<open>Unfolding the inning loop\<close>

lemma inning_loop_done: "\<not> n_outs s < 3 \<Longrightarrow> inning_loop lineup s g = Some (Inr (s, g))"
  by (subst inning_loop.simps) simp

lemma inning_loop_step:
  "n_outs s < 3 \<Longrightarrow> at_bat lineup s g = Inr (s', g') \<Longrightarrow>
     inning_loop lineup s g = inning_loop lineup s' g'"
  by (subst inning_loop.simps) simp

lemma inning_loop_raise:
  "n_outs s < 3 \<Longrightarrow> at_bat lineup s g = Inl e \<Longrightarrow> inning_loop lineup s g = Some (Inl e)"
  by (subst inning_loop.simps) simp

lemma at_bat_eq:
  assumes "subscript lineup (current_batter s) = Inr B" and "player_hit B g = Inr (r, g')"
  shows "at_bat lineup s g =
     Inr ((apply_result r B s)\<lparr>current_batter := (current_batter s + 1) mod int (length lineup)\<rparr>, g')"
proof -
  have "lineup \<noteq> []" using assms(1) by (auto simp: subscript_def split: if_splits)
  then show ?thesis using assms by (simp add: at_bat_def)
qed

lemma loop_at_bat:
  assumes "n_outs s < 3" and "subscript lineup (current_batter s) = Inr B"
    and "player_hit B g = Inr (r, g')"
  shows "inning_loop lineup s g =
     inning_loop lineup
       ((apply_result r B s)\<lparr>current_batter := (current_batter s + 1) mod int (length lineup)\<rparr>) g'"
  using assms(1) at_bat_eq [OF assms(2,3)] by (rule inning_loop_step)

subsection \<open>The transition table\<close>

text \<open>
  C4. One at-bat in a state with fewer than three outs, with batter \<open>B\<close> at the cursor
  and outcome \<open>r\<close> drawn: the loop continues from a state \<open>s'\<close> whose cursor is one
  further modulo the lineup length, and which follows the table. OUT adds one out and
  nothing else. SINGLE scores the runner on third, moves second to third and first to
  second, and puts \<open>B\<close> on first. DOUBLE scores the runners on second and third, moves
  first to third, puts \<open>B\<close> on second and empties first. TRIPLE scores every runner and
  leaves \<open>B\<close> alone on third. HOME RUN scores every runner and \<open>B\<close> and empties the bases.
\<close>

theorem transition_table:
  assumes "n_outs s < 3"
    and "subscript lineup (current_batter s) = Inr B"
    and "player_hit B g = Inr (r, g')"
  shows "\<exists>s'. at_bat lineup s g = Inr (s', g')
      \<and> inning_loop lineup s g = inning_loop lineup s' g'
      \<and> current_batter s' = (current_batter s + 1) mod int (length lineup)
      \<and> (r = ''out'' \<longrightarrow>
           n_outs s' = n_outs s + 1 \<and> n_runs s' = n_runs s \<and> first_base s' = first_base s
           \<and> second_base s' = second_base s \<and> third_base s' = third_base s)
      \<and> (r = ''1B'' \<longrightarrow>
           n_outs s' = n_outs s
           \<and> n_runs s' = n_runs s + (if third_base s \<noteq> None then 1 else 0)
           \<and> first_base s' = Some B \<and> second_base s' = first_base s
           \<and> third_base s' = second_base s)
      \<and> (r = ''2B'' \<longrightarrow>
           n_outs s' = n_outs s
           \<and> n_runs s' = n_runs s + (if second_base s \<noteq> None then 1 else 0)
                                  + (if third_base s \<noteq> None then 1 else 0)
           \<and> first_base s' = None \<and> second_base s' = Some B \<and> third_base s' = first_base s)
      \<and> (r = ''3B'' \<longrightarrow>
           n_outs s' = n_outs s \<and> n_runs s' = n_runs s + occupied s
           \<and> first_base s' = None \<and> second_base s' = None \<and> third_base s' = Some B)
      \<and> (r = ''HR'' \<longrightarrow>
           n_outs s' = n_outs s \<and> n_runs s' = n_runs s + occupied s + 1
           \<and> first_base s' = None \<and> second_base s' = None \<and> third_base s' = None)"
proof -
  let ?s' = "(apply_result r B s)\<lparr>current_batter := (current_batter s + 1) mod int (length lineup)\<rparr>"
  have step: "at_bat lineup s g = Inr (?s', g')"
    using assms(2,3) by (rule at_bat_eq)
  have loop: "inning_loop lineup s g = inning_loop lineup ?s' g'"
    using assms(1) step by (rule inning_loop_step)
  show ?thesis
    apply (rule exI [of _ ?s'])
    using step loop by (simp add: apply_result_def)
qed

text \<open>A player with two at-bats, one of them a single: token 0 is the out, token 1
  the single.\<close>

lemma hit_single: "player_hit (new_Player nm 2 1 0 0 0) (1 ## g) = Inr (''1B'', g)"
  by (simp add: player_hit_def choice_def randbelow_def outcomes_def new_Player_def)

lemma hit_out: "player_hit (new_Player nm 2 1 0 0 0) (0 ## g) = Inr (''out'', g)"
  by (simp add: player_hit_def choice_def randbelow_def outcomes_def new_Player_def)

theorem transition_table_witness:
  "\<exists>s'. at_bat [new_Player ''A'' 2 1 0 0 0, new_Player ''B'' 2 1 0 0 0]
           \<lparr>first_base = None, second_base = None, third_base = Some (new_Player ''B'' 2 1 0 0 0),
            n_outs = 1, n_runs = 0, current_batter = 0\<rparr> (1 ## sconst 0) = Inr (s', sconst 0)
      \<and> current_batter s' = 1 \<and> n_outs s' = 1 \<and> n_runs s' = 1
      \<and> first_base s' = Some (new_Player ''A'' 2 1 0 0 0) \<and> second_base s' = None
      \<and> third_base s' = None"
proof -
  let ?A = "new_Player ''A'' 2 1 0 0 0"
  let ?B = "new_Player ''B'' 2 1 0 0 0"
  let ?s = "\<lparr>first_base = None, second_base = None, third_base = Some ?B,
            n_outs = 1, n_runs = 0, current_batter = 0\<rparr>"
  have a: "n_outs ?s < 3" by simp
  have b: "subscript [?A, ?B] (current_batter ?s) = Inr ?A" by (simp add: subscript_def)
  from transition_table [OF a b hit_single, of "sconst 0"] show ?thesis by auto
qed

subsection \<open>The regression scenario: three singles, then three outs\<close>

lemma singles_then_outs:
  assumes h1: "player_hit a g0 = Inr (''1B'', g1)" and h2: "player_hit b g1 = Inr (''1B'', g2)"
    and h3: "player_hit c g2 = Inr (''1B'', g3)" and h4: "player_hit a g3 = Inr (''out'', g4)"
    and h5: "player_hit b g4 = Inr (''out'', g5)" and h6: "player_hit c g5 = Inr (''out'', g6)"
  shows "inning_steps 3 [a, b, c] (initial_state 0) g0 =
           Inr (\<lparr>first_base = Some c, second_base = Some b, third_base = Some a,
                 n_outs = 0, n_runs = 0, current_batter = 0\<rparr>, g3)"
    and "simulate_inning [a, b, c] 0 g0 = Some (Inr ((0, 0), g6))"
proof -
  let ?L = "[a, b, c]"
  let ?s1 = "\<lparr>first_base = Some a, second_base = None, third_base = None,
      n_outs = 0, n_runs = 0, current_batter = 1\<rparr>"
  let ?s2 = "\<lparr>first_base = Some b, second_base = Some a, third_base = None,
      n_outs = 0, n_runs = 0, current_batter = 2\<rparr>"
  let ?s3 = "\<lparr>first_base = Some c, second_base = Some b, third_base = Some a,
      n_outs = 0, n_runs = 0, current_batter = 0\<rparr>"
  have a1: "at_bat ?L (initial_state 0) g0 = Inr (?s1, g1)"
    using at_bat_eq [of ?L "initial_state 0" a g0 "''1B''" g1] h1
    by (simp add: initial_state_def subscript_def apply_result_def)
  have a2: "at_bat ?L ?s1 g1 = Inr (?s2, g2)"
    using at_bat_eq [of ?L ?s1 b g1 "''1B''" g2] h2
    by (simp add: subscript_def apply_result_def)
  have a3: "at_bat ?L ?s2 g2 = Inr (?s3, g3)"
    using at_bat_eq [of ?L ?s2 c g2 "''1B''" g3] h3
    by (simp add: subscript_def apply_result_def)
  have a4: "at_bat ?L ?s3 g3 = Inr (?s3\<lparr>n_outs := 1, current_batter := 1\<rparr>, g4)"
    using at_bat_eq [of ?L ?s3 a g3 "''out''" g4] h4
    by (simp add: subscript_def apply_result_def)
  have a5: "at_bat ?L (?s3\<lparr>n_outs := 1, current_batter := 1\<rparr>) g4
              = Inr (?s3\<lparr>n_outs := 2, current_batter := 2\<rparr>, g5)"
    using at_bat_eq [of ?L "?s3\<lparr>n_outs := 1, current_batter := 1\<rparr>" b g4 "''out''" g5] h5
    by (simp add: subscript_def apply_result_def)
  have a6: "at_bat ?L (?s3\<lparr>n_outs := 2, current_batter := 2\<rparr>) g5
              = Inr (?s3\<lparr>n_outs := 3, current_batter := 0\<rparr>, g6)"
    using at_bat_eq [of ?L "?s3\<lparr>n_outs := 2, current_batter := 2\<rparr>" c g5 "''out''" g6] h6
    by (simp add: subscript_def apply_result_def)
  show "inning_steps 3 ?L (initial_state 0) g0 = Inr (?s3, g3)"
    using a1 a2 a3 by (simp add: numeral_3_eq_3 initial_state_def)
  have "inning_loop ?L (initial_state 0) g0 = inning_loop ?L ?s1 g1"
    by (rule inning_loop_step [OF _ a1]) (simp add: initial_state_def)
  also have "\<dots> = inning_loop ?L ?s2 g2"
    by (rule inning_loop_step [OF _ a2]) simp
  also have "\<dots> = inning_loop ?L ?s3 g3"
    by (rule inning_loop_step [OF _ a3]) simp
  also have "\<dots> = inning_loop ?L (?s3\<lparr>n_outs := 1, current_batter := 1\<rparr>) g4"
    by (rule inning_loop_step [OF _ a4]) simp
  also have "\<dots> = inning_loop ?L (?s3\<lparr>n_outs := 2, current_batter := 2\<rparr>) g5"
    by (rule inning_loop_step [OF _ a5]) simp
  also have "\<dots> = inning_loop ?L (?s3\<lparr>n_outs := 3, current_batter := 0\<rparr>) g6"
    by (rule inning_loop_step [OF _ a6]) simp
  also have "\<dots> = Some (Inr (?s3\<lparr>n_outs := 3, current_batter := 0\<rparr>, g6))"
    by (rule inning_loop_done) simp
  finally show "simulate_inning ?L 0 g0 = Some (Inr ((0, 0), g6))"
    by (simp add: simulate_inning_def and_then_def)
qed

text \<open>
  C3, as the code has it. When the six at-bats of a three-player lineup come out as
  SINGLE, SINGLE, SINGLE, OUT, OUT, OUT, the bases are loaded with no run scored after
  the third single, and the inning ends with 0 runs and the cursor back at 0.
\<close>

theorem three_singles_three_outs:
  assumes "player_hit a g0 = Inr (''1B'', g1)" and "player_hit b g1 = Inr (''1B'', g2)"
    and "player_hit c g2 = Inr (''1B'', g3)" and "player_hit a g3 = Inr (''out'', g4)"
    and "player_hit b g4 = Inr (''out'', g5)" and "player_hit c g5 = Inr (''out'', g6)"
  shows "inning_steps 3 [a, b, c] (initial_state 0) g0 =
           Inr (\<lparr>first_base = Some c, second_base = Some b, third_base = Some a,
                 n_outs = 0, n_runs = 0, current_batter = 0\<rparr>, g3)
       \<and> simulate_inning [a, b, c] 0 g0 = Some (Inr ((0, 0), g6))"
  using singles_then_outs [OF assms] by simp

theorem three_singles_three_outs_witness:
  "inning_steps 3 [new_Player ''A'' 2 1 0 0 0, new_Player ''B'' 2 1 0 0 0, new_Player ''C'' 2 1 0 0 0]
       (initial_state 0) (1 ## 1 ## 1 ## 0 ## 0 ## 0 ## sconst 0) =
     Inr (\<lparr>first_base = Some (new_Player ''C'' 2 1 0 0 0), second_base = Some (new_Player ''B'' 2 1 0 0 0),
           third_base = Some (new_Player ''A'' 2 1 0 0 0), n_outs = 0, n_runs = 0, current_batter = 0\<rparr>,
          0 ## 0 ## 0 ## sconst 0)
   \<and> simulate_inning [new_Player ''A'' 2 1 0 0 0, new_Player ''B'' 2 1 0 0 0, new_Player ''C'' 2 1 0 0 0] 0
       (1 ## 1 ## 1 ## 0 ## 0 ## 0 ## sconst 0) = Some (Inr ((0, 0), sconst 0))"
  by (rule three_singles_three_outs [OF hit_single hit_single hit_single hit_out hit_out hit_out])

text \<open>
  The scenario at three players with one single and one out each, the generator
  drawing the token positions 1, 1, 1, 0, 0, 0: the outcomes are the six of the
  scenario, and the inning scores 0 runs, not 1.
\<close>

theorem one_run_counterexample:
  "player_hit (new_Player ''A'' 2 1 0 0 0) (1 ## 1 ## 1 ## 0 ## 0 ## 0 ## sconst 0)
       = Inr (''1B'', 1 ## 1 ## 0 ## 0 ## 0 ## sconst 0)
   \<and> player_hit (new_Player ''B'' 2 1 0 0 0) (1 ## 1 ## 0 ## 0 ## 0 ## sconst 0)
       = Inr (''1B'', 1 ## 0 ## 0 ## 0 ## sconst 0)
   \<and> player_hit (new_Player ''C'' 2 1 0 0 0) (1 ## 0 ## 0 ## 0 ## sconst 0)
       = Inr (''1B'', 0 ## 0 ## 0 ## sconst 0)
   \<and> player_hit (new_Player ''A'' 2 1 0 0 0) (0 ## 0 ## 0 ## sconst 0)
       = Inr (''out'', 0 ## 0 ## sconst 0)
   \<and> player_hit (new_Player ''B'' 2 1 0 0 0) (0 ## 0 ## sconst 0)
       = Inr (''out'', 0 ## sconst 0)
   \<and> player_hit (new_Player ''C'' 2 1 0 0 0) (0 ## sconst 0)
       = Inr (''out'', sconst 0)
   \<and> simulate_inning
         [new_Player ''A'' 2 1 0 0 0, new_Player ''B'' 2 1 0 0 0, new_Player ''C'' 2 1 0 0 0] 0
         (1 ## 1 ## 1 ## 0 ## 0 ## 0 ## sconst 0) = Some (Inr ((0, 0), sconst 0))
   \<and> simulate_inning
         [new_Player ''A'' 2 1 0 0 0, new_Player ''B'' 2 1 0 0 0, new_Player ''C'' 2 1 0 0 0] 0
         (1 ## 1 ## 1 ## 0 ## 0 ## 0 ## sconst 0) \<noteq> Some (Inr ((1, 0), sconst 0))"
proof -
  have r: "simulate_inning
         [new_Player ''A'' 2 1 0 0 0, new_Player ''B'' 2 1 0 0 0, new_Player ''C'' 2 1 0 0 0] 0
         (1 ## 1 ## 1 ## 0 ## 0 ## 0 ## sconst 0) = Some (Inr ((0, 0), sconst 0))"
    by (rule singles_then_outs(2) [OF hit_single hit_single hit_single hit_out hit_out hit_out])
  have n: "simulate_inning
         [new_Player ''A'' 2 1 0 0 0, new_Player ''B'' 2 1 0 0 0, new_Player ''C'' 2 1 0 0 0] 0
         (1 ## 1 ## 1 ## 0 ## 0 ## 0 ## sconst 0) \<noteq> Some (Inr ((1, 0), sconst 0))"
    unfolding r by simp
  show ?thesis by (intro conjI hit_single hit_out r n)
qed

subsection \<open>Termination of an inning\<close>

lemma steps_imp_loop:
  "inning_steps k lineup s g = r \<Longrightarrow> finished r \<Longrightarrow> inning_loop lineup s g = Some r"
proof (induction k arbitrary: s g)
  case 0
  then show ?case by (auto simp: finished_def inning_loop_done)
next
  case (Suc k)
  show ?case
  proof (cases "n_outs s < 3")
    case False
    with Suc.prems show ?thesis by (auto simp: inning_loop_done)
  next
    case True
    show ?thesis
    proof (cases "at_bat lineup s g")
      case (Inl e)
      with True Suc.prems show ?thesis by (auto simp: inning_loop_raise)
    next
      case (Inr p)
      obtain s' g' where p: "p = (s', g')" by (cases p)
      with Inr True Suc.prems have "inning_steps k lineup s' g' = r" by simp
      then have "inning_loop lineup s' g' = Some r" using Suc.prems(2) by (rule Suc.IH)
      with Inr p True show ?thesis by (simp add: inning_loop_step)
    qed
  qed
qed

lemma loop_imp_steps:
  assumes "inning_loop lineup s g = Some r"
  shows "\<exists>k. inning_steps k lineup s g = r \<and> finished r"
proof (rule inning_loop.raw_induct [OF _ assms])
  fix f lineup s g r
  assume IH: "\<And>lineup s g r. f lineup s g = Some r \<Longrightarrow> \<exists>k. inning_steps k lineup s g = r \<and> finished r"
    and eq: "(if n_outs s < 3 then
        (case at_bat lineup s g of
           Inl e \<Rightarrow> Some (Inl e)
         | Inr (s', g') \<Rightarrow> f lineup s' g')
      else Some (Inr (s, g))) = Some r"
  show "\<exists>k. inning_steps k lineup s g = r \<and> finished r"
  proof (cases "n_outs s < 3")
    case False
    with eq have "inning_steps 0 lineup s g = r \<and> finished r" by (auto simp: finished_def)
    then show ?thesis by blast
  next
    case True
    show ?thesis
    proof (cases "at_bat lineup s g")
      case (Inl e)
      with True eq have "inning_steps (Suc 0) lineup s g = r \<and> finished r" by (auto simp: finished_def)
      then show ?thesis by blast
    next
      case (Inr p)
      obtain s' g' where p: "p = (s', g')" by (cases p)
      with Inr True eq have "f lineup s' g' = Some r" by simp
      then obtain k where "inning_steps k lineup s' g' = r \<and> finished r" using IH by blast
      with Inr p True have "inning_steps (Suc k) lineup s g = r \<and> finished r" by simp
      then show ?thesis by blast
    qed
  qed
qed

lemma length_outcomes: "counts_ok p \<Longrightarrow> length (outcomes p) = nat (ab p)"
  by (simp add: outcomes_def counts_ok_def nat_add_distrib [symmetric])

lemma set_outcomes: "set (outcomes p) \<subseteq> {''out'', ''1B'', ''2B'', ''3B'', ''HR''}"
  by (auto simp: outcomes_def)

lemma player_hit_valid:
  assumes "valid_player p"
  shows "player_hit p g = Inr (outcomes p ! (shd g mod nat (ab p)), stl g)"
proof -
  have "length (outcomes p) = nat (ab p)" and "0 < ab p"
    using assms by (simp_all add: valid_player_def length_outcomes)
  then have "outcomes p \<noteq> []" by auto
  then show ?thesis
    using \<open>length (outcomes p) = nat (ab p)\<close> by (simp add: player_hit_def choice_def randbelow_def)
qed

lemma subscript_in_range:
  assumes "- int (length xs) \<le> i" and "i < int (length xs)"
  shows "\<exists>x \<in> set xs. subscript xs i = Inr x"
proof (cases "0 \<le> i")
  case True
  with assms show ?thesis by (simp add: subscript_def)
next
  case False
  with assms have "nat (int (length xs) + i) < length xs" by linarith
  with False assms show ?thesis by (simp add: subscript_def)
qed

lemma apply_result_bounds:
  "n_outs s \<le> n_outs (apply_result r B s) \<and> n_outs (apply_result r B s) \<le> n_outs s + 1
     \<and> n_runs s \<le> n_runs (apply_result r B s)"
  by (simp add: apply_result_def occupied_def)

lemma at_bat_in_play:
  assumes "list_all valid_player lineup" and "in_play lineup s" and "n_outs s < 3"
  shows "\<exists>s'. at_bat lineup s g = Inr (s', stl g) \<and> in_play lineup s'"
proof -
  obtain B where B: "B \<in> set lineup" "subscript lineup (current_batter s) = Inr B"
    using subscript_in_range [of lineup "current_batter s"] assms(2) by (auto simp: in_play_def)
  then have "valid_player B" using assms(1) by (simp add: list_all_iff)
  then have hit: "player_hit B g = Inr (outcomes B ! (shd g mod nat (ab B)), stl g)"
    by (rule player_hit_valid)
  let ?r = "outcomes B ! (shd g mod nat (ab B))"
  let ?s' = "(apply_result ?r B s)\<lparr>current_batter := (current_batter s + 1) mod int (length lineup)\<rparr>"
  have step: "at_bat lineup s g = Inr (?s', stl g)"
    using B(2) hit by (rule at_bat_eq)
  have "lineup \<noteq> []" using B(1) by auto
  then have "0 < int (length lineup)" by simp
  then have "0 \<le> (current_batter s + 1) mod int (length lineup)"
    and "(current_batter s + 1) mod int (length lineup) < int (length lineup)"
    by simp_all
  moreover have "n_outs (apply_result ?r B s) \<le> 3" "0 \<le> n_runs (apply_result ?r B s)"
    using apply_result_bounds [of s ?r B] assms(2,3) by (simp_all add: in_play_def)
  ultimately have "in_play lineup ?s'" by (simp add: in_play_def)
  with step show ?thesis by blast
qed

lemma inning_steps_in_play:
  assumes "list_all valid_player lineup"
  shows "in_play lineup s \<Longrightarrow> \<exists>s' g'. inning_steps k lineup s g = Inr (s', g') \<and> in_play lineup s'"
proof (induction k arbitrary: s g)
  case 0
  then show ?case by simp
next
  case (Suc k)
  show ?case
  proof (cases "n_outs s < 3")
    case False
    with Suc.prems show ?thesis by simp
  next
    case True
    obtain s1 where s1: "at_bat lineup s g = Inr (s1, stl g)" "in_play lineup s1"
      using at_bat_in_play [OF assms Suc.prems True] by blast
    from Suc.IH [OF s1(2), of "stl g"] s1(1) True show ?thesis by simp
  qed
qed

text \<open>
  C2, as the code has it. For a lineup of valid players and a cursor that is a valid
  index, \<^verbatim>\<open>simulate_inning\<close> never raises, and it returns exactly when some finite
  number of at-bats brings the out count to 3: then the loop has stopped at exactly 3
  outs, and the result is the run total (not negative) and the next cursor (an index of
  the lineup). Whether that happens depends on the generator: the loop has no other exit.
\<close>

theorem inning_returns_iff_three_outs:
  assumes "list_all valid_player lineup"
    and "- int (length lineup) \<le> c" and "c < int (length lineup)"
  shows "simulate_inning lineup c g \<noteq> Some (Inl e)
     \<and> (simulate_inning lineup c g = Some (Inr ((r, c'), g')) \<longleftrightarrow>
          (\<exists>k s'. inning_steps k lineup (initial_state c) g = Inr (s', g')
             \<and> n_outs s' = 3 \<and> n_runs s' = r \<and> current_batter s' = c'))
     \<and> (simulate_inning lineup c g = Some (Inr ((r, c'), g')) \<longrightarrow>
          0 \<le> r \<and> 0 \<le> c' \<and> c' < int (length lineup))"
proof -
  have start: "in_play lineup (initial_state c)"
    using assms(2,3) by (simp add: in_play_def initial_state_def)
  have ret: "\<exists>k. inning_steps k lineup (initial_state c) g = Inr (s', g1) \<and> n_outs s' = 3
       \<and> in_play lineup s'"
    if "inning_loop lineup (initial_state c) g = Some (Inr (s', g1))" for s' g1
  proof -
    from loop_imp_steps [OF that] obtain k
      where k: "inning_steps k lineup (initial_state c) g = Inr (s', g1)" "\<not> n_outs s' < 3"
      by (auto simp: finished_def)
    from inning_steps_in_play [OF assms(1) start, of k g] k(1) have "in_play lineup s'" by simp
    with k show ?thesis by (auto simp: in_play_def)
  qed
  have no_raise: "inning_loop lineup (initial_state c) g \<noteq> Some (Inl e)"
  proof
    assume "inning_loop lineup (initial_state c) g = Some (Inl e)"
    from loop_imp_steps [OF this] obtain k
      where "inning_steps k lineup (initial_state c) g = Inl e" by auto
    with inning_steps_in_play [OF assms(1) start, of k g] show False by simp
  qed
  have c1: "simulate_inning lineup c g \<noteq> Some (Inl e)"
    using no_raise by (auto simp: simulate_inning_def and_then_def split: option.splits sum.splits)
  have c2: "simulate_inning lineup c g = Some (Inr ((r, c'), g')) \<longleftrightarrow>
          (\<exists>k s'. inning_steps k lineup (initial_state c) g = Inr (s', g')
             \<and> n_outs s' = 3 \<and> n_runs s' = r \<and> current_batter s' = c')" (is "?lhs \<longleftrightarrow> ?rhs")
  proof
    assume ?lhs
    then obtain s' where s': "inning_loop lineup (initial_state c) g = Some (Inr (s', g'))"
      "n_runs s' = r" "current_batter s' = c'"
      by (auto simp: simulate_inning_def and_then_def split: option.splits sum.splits)
    from ret [OF s'(1)] s'(2,3) show ?rhs by blast
  next
    assume ?rhs
    then obtain k s' where k: "inning_steps k lineup (initial_state c) g = Inr (s', g')"
      "n_outs s' = 3" "n_runs s' = r" "current_batter s' = c'" by blast
    have "finished (Inr (s', g'))" using k(2) by (simp add: finished_def)
    from steps_imp_loop [OF k(1) this] k(3,4) show ?lhs
      by (simp add: simulate_inning_def and_then_def)
  qed
  have c3: "simulate_inning lineup c g = Some (Inr ((r, c'), g')) \<longrightarrow>
          0 \<le> r \<and> 0 \<le> c' \<and> c' < int (length lineup)"
  proof
    assume "simulate_inning lineup c g = Some (Inr ((r, c'), g'))"
    then obtain s' where s': "inning_loop lineup (initial_state c) g = Some (Inr (s', g'))"
      "n_runs s' = r" "current_batter s' = c'"
      by (auto simp: simulate_inning_def and_then_def split: option.splits sum.splits)
    from ret [OF s'(1)] s'(2,3) show "0 \<le> r \<and> 0 \<le> c' \<and> c' < int (length lineup)"
      by (auto simp: in_play_def)
  qed
  from c1 c2 c3 show ?thesis by blast
qed

text \<open>The definitions an evaluation of the simulation unfolds.\<close>

lemmas sim_defs = at_bat_def subscript_def player_hit_def choice_def randbelow_def
  outcomes_def new_Player_def apply_result_def initial_state_def occupied_def

theorem inning_returns_iff_three_outs_witness:
  "list_all valid_player [new_Player ''A'' 2 1 0 0 0]
   \<and> simulate_inning [new_Player ''A'' 2 1 0 0 0] 0 (sconst 0) \<noteq> Some (Inl IndexError)
   \<and> simulate_inning [new_Player ''A'' 2 1 0 0 0] 0 (sconst 0) = Some (Inr ((0, 0), sconst 0))"
proof -
  let ?L = "[new_Player ''A'' 2 1 0 0 0]"
  have v: "list_all valid_player ?L"
    by (simp add: valid_player_def counts_ok_def new_Player_def)
  have lo: "- int (length ?L) \<le> 0" and hi: "0 < int (length ?L)" by simp_all
  have "\<exists>k s'. inning_steps k ?L (initial_state 0) (sconst 0) = Inr (s', sconst 0)
      \<and> n_outs s' = 3 \<and> n_runs s' = 0 \<and> current_batter s' = 0"
    by (rule exI [of _ 3]) (simp add: numeral_3_eq_3 sim_defs)
  with inning_returns_iff_three_outs [OF v lo hi, of "sconst 0" IndexError 0 0 "sconst 0"] v
  show ?thesis by simp
qed

text \<open>
  A player whose only at-bat was a single has no out token: every draw is a single, the
  out count stays at 0, and the inning never ends, whatever the generator delivers.
\<close>

lemma only_singles_never_returns:
  assumes "inning_loop lineup s g = Some r"
  shows "lineup = [new_Player ''A'' 1 1 0 0 0] \<longrightarrow> current_batter s = 0 \<longrightarrow> n_outs s < 3 \<longrightarrow> False"
proof (rule inning_loop.raw_induct [OF _ assms])
  fix f lineup s g r
  assume IH: "\<And>lineup s g r. f lineup s g = Some r \<Longrightarrow>
       lineup = [new_Player ''A'' 1 1 0 0 0] \<longrightarrow> current_batter s = 0 \<longrightarrow> n_outs s < 3 \<longrightarrow> False"
    and eq: "(if n_outs s < 3 then
        (case at_bat lineup s g of
           Inl e \<Rightarrow> Some (Inl e)
         | Inr (s', g') \<Rightarrow> f lineup s' g')
      else Some (Inr (s, g))) = Some r"
  show "lineup = [new_Player ''A'' 1 1 0 0 0] \<longrightarrow> current_batter s = 0 \<longrightarrow> n_outs s < 3 \<longrightarrow> False"
  proof (intro impI)
    assume l: "lineup = [new_Player ''A'' 1 1 0 0 0]" and c: "current_batter s = 0" and o: "n_outs s < 3"
    let ?s' = "(apply_result ''1B'' (new_Player ''A'' 1 1 0 0 0) s)\<lparr>current_batter := 0\<rparr>"
    have ab: "at_bat lineup s g = Inr (?s', stl g)"
      using l c by (simp add: at_bat_def subscript_def player_hit_def choice_def randbelow_def
          outcomes_def new_Player_def)
    with eq o have "f lineup ?s' (stl g) = Some r" by simp
    from IH [OF this] l o show False by (simp add: apply_result_def)
  qed
qed

text \<open>The player is valid (one at-bat, no negative count), and the inning does not return.\<close>

theorem inning_never_ends_counterexample:
  "list_all valid_player [new_Player ''A'' 1 1 0 0 0]
   \<and> simulate_inning [new_Player ''A'' 1 1 0 0 0] 0 (sconst 0) = None"
proof -
  have "inning_loop [new_Player ''A'' 1 1 0 0 0] (initial_state 0) (sconst 0) = None"
  proof (cases "inning_loop [new_Player ''A'' 1 1 0 0 0] (initial_state 0) (sconst 0)")
    case (Some r)
    from only_singles_never_returns [OF this] show ?thesis by (simp add: initial_state_def)
  qed
  then show ?thesis
    by (simp add: simulate_inning_def and_then_def valid_player_def counts_ok_def new_Player_def)
qed

subsection \<open>The outcome sampler\<close>

lemma count_outcomes:
  "count (mset (outcomes p)) l =
     (if l = ''out'' then nat (outs p) else if l = ''1B'' then nat (singles p)
      else if l = ''2B'' then nat (doubles p) else if l = ''3B'' then nat (triples p)
      else if l = ''HR'' then nat (homers p) else 0)"
  by (simp add: outcomes_def)

lemma card_positions: "card {i. i < length xs \<and> xs ! i = x} = count (mset xs) x"
proof (induction xs rule: rev_induct)
  case Nil
  then show ?case by simp
next
  case (snoc y ys)
  have split: "{i. i < length (ys @ [y]) \<and> (ys @ [y]) ! i = x} =
      {i. i < length ys \<and> ys ! i = x} \<union> (if y = x then {length ys} else {})"
    by (auto simp: nth_append less_Suc_eq)
  have fin: "finite {i. i < length ys \<and> ys ! i = x}" by simp
  show ?case unfolding split using snoc.IH fin by auto
qed

text \<open>
  C8. For a Player with no negative count (the derived out count included): the token
  list has \<open>AB\<close> tokens, of each label exactly the stored count and no other label;
  the positions below \<open>AB\<close> that hold a label are as many as its count, so a uniform
  position draws each label with probability count over \<open>AB\<close>. With \<open>AB > 0\<close> the
  sampler returns the token at a position below \<open>AB\<close>, one of the five labels, and
  consumes one draw; it raises exactly when \<open>AB = 0\<close>, and then IndexError.
\<close>

theorem outcome_sampler:
  assumes "counts_ok p"
  shows "length (outcomes p) = nat (ab p)
     \<and> count (mset (outcomes p)) ''out'' = nat (outs p)
     \<and> count (mset (outcomes p)) ''1B'' = nat (singles p)
     \<and> count (mset (outcomes p)) ''2B'' = nat (doubles p)
     \<and> count (mset (outcomes p)) ''3B'' = nat (triples p)
     \<and> count (mset (outcomes p)) ''HR'' = nat (homers p)
     \<and> set (outcomes p) \<subseteq> {''out'', ''1B'', ''2B'', ''3B'', ''HR''}
     \<and> card {i. i < nat (ab p) \<and> outcomes p ! i = l} = count (mset (outcomes p)) l
     \<and> (0 < ab p \<longrightarrow>
          player_hit p g = Inr (outcomes p ! (shd g mod nat (ab p)), stl g)
          \<and> shd g mod nat (ab p) < nat (ab p)
          \<and> outcomes p ! (shd g mod nat (ab p)) \<in> {''out'', ''1B'', ''2B'', ''3B'', ''HR''})
     \<and> ((\<exists>e. player_hit p g = Inl e) \<longleftrightarrow> ab p = 0)
     \<and> (ab p = 0 \<longrightarrow> player_hit p g = Inl IndexError)"
proof -
  have len: "length (outcomes p) = nat (ab p)" using assms by (rule length_outcomes)
  have nonneg: "0 \<le> ab p" using assms by (simp add: counts_ok_def)
  have card: "card {i. i < nat (ab p) \<and> outcomes p ! i = l} = count (mset (outcomes p)) l"
    using card_positions [of "outcomes p" l] len by simp
  have pos: "player_hit p g = Inr (outcomes p ! (shd g mod nat (ab p)), stl g)
          \<and> shd g mod nat (ab p) < nat (ab p)
          \<and> outcomes p ! (shd g mod nat (ab p)) \<in> {''out'', ''1B'', ''2B'', ''3B'', ''HR''}"
    if "0 < ab p"
  proof -
    have v: "valid_player p" using assms that by (simp add: valid_player_def)
    have lt: "shd g mod nat (ab p) < length (outcomes p)" using that len by simp
    then have "outcomes p ! (shd g mod nat (ab p)) \<in> set (outcomes p)" by (rule nth_mem)
    with set_outcomes [of p]
    have "outcomes p ! (shd g mod nat (ab p)) \<in> {''out'', ''1B'', ''2B'', ''3B'', ''HR''}"
      by (rule subsetD)
    with lt len player_hit_valid [OF v, of g] show ?thesis by simp
  qed
  have zero: "player_hit p g = Inl IndexError" if "ab p = 0"
    using that len by (simp add: player_hit_def choice_def)
  have fails: "(\<exists>e. player_hit p g = Inl e) \<longleftrightarrow> ab p = 0"
    using pos zero nonneg by (cases "ab p = 0") auto
  show ?thesis
    using len card pos zero fails set_outcomes [of p] by (simp add: count_outcomes)
qed

theorem outcome_sampler_witness:
  "counts_ok (new_Player ''A'' 10 3 0 0 0)
   \<and> length (outcomes (new_Player ''A'' 10 3 0 0 0)) = 10
   \<and> count (mset (outcomes (new_Player ''A'' 10 3 0 0 0))) ''out'' = 7
   \<and> count (mset (outcomes (new_Player ''A'' 10 3 0 0 0))) ''1B'' = 3
   \<and> card {i. i < 10 \<and> outcomes (new_Player ''A'' 10 3 0 0 0) ! i = ''1B''} = 3
   \<and> player_hit (new_Player ''A'' 10 3 0 0 0) (8 ## sconst 0) = Inr (''1B'', sconst 0)
   \<and> counts_ok (new_Player ''Z'' 0 0 0 0 0)
   \<and> player_hit (new_Player ''Z'' 0 0 0 0 0) (8 ## sconst 0) = Inl IndexError"
proof -
  have a: "counts_ok (new_Player ''A'' 10 3 0 0 0)" and z: "counts_ok (new_Player ''Z'' 0 0 0 0 0)"
    by (simp_all add: counts_ok_def new_Player_def)
  have n: "outcomes (new_Player ''A'' 10 3 0 0 0) ! 8 = ''1B''"
    by (simp add: outcomes_def new_Player_def nth_append)
  from outcome_sampler [OF a, of "''1B''" "8 ## sconst 0"] outcome_sampler [OF z, of "''1B''" "8 ## sconst 0"] a z n
  show ?thesis by (simp add: new_Player_def)
qed

subsection \<open>The game aggregator\<close>

lemma game_loop_iff:
  "game_loop k lineup (tot, scores, c) g = Some (Inr ((tot', scores', c'), g')) \<longleftrightarrow>
     (\<exists>rs. length rs = k \<and> scores' = scores @ rs \<and> tot' = tot + sum_list rs
        \<and> innings_from lineup c g rs c' g')"
proof (induction k arbitrary: tot scores c g)
  case 0
  then show ?case by auto
next
  case (Suc k)
  show ?case
  proof (cases "simulate_inning lineup c g")
    case None
    then show ?thesis by (auto simp: and_then_def length_Suc_conv)
  next
    case (Some x)
    show ?thesis
    proof (cases x)
      case (Inl e)
      with Some show ?thesis by (auto simp: and_then_def length_Suc_conv)
    next
      case (Inr y)
      obtain r c1 g1 where y: "y = ((r, c1), g1)" by (cases y) auto
      have "game_loop (Suc k) lineup (tot, scores, c) g =
          game_loop k lineup (tot + r, scores @ [r], c1) g1"
        using Some Inr y by (simp add: and_then_def)
      also have "\<dots> = Some (Inr ((tot', scores', c'), g')) \<longleftrightarrow>
         (\<exists>rs. length rs = k \<and> scores' = (scores @ [r]) @ rs \<and> tot' = (tot + r) + sum_list rs
            \<and> innings_from lineup c1 g1 rs c' g')"
        by (rule Suc.IH)
      also have "\<dots> \<longleftrightarrow> (\<exists>rs. length rs = Suc k \<and> scores' = scores @ rs
            \<and> tot' = tot + sum_list rs \<and> innings_from lineup c g rs c' g')"
        using Some Inr y by (auto simp: length_Suc_conv)
      finally show ?thesis .
    qed
  qed
qed

lemma simulate_game_iff:
  "simulate_game lineup innings g = Some (Inr (game, g')) \<longleftrightarrow>
     length (inning_scores game) = nat innings
     \<and> total_runs game = sum_list (inning_scores game)
     \<and> game_lineup game = map name lineup
     \<and> (\<exists>c'. innings_from lineup 0 g (inning_scores game) c' g')"
proof -
  obtain t sc nm where game: "game = \<lparr>total_runs = t, inning_scores = sc, game_lineup = nm\<rparr>"
    by (cases game) auto
  have "simulate_game lineup innings g = Some (Inr (game, g')) \<longleftrightarrow>
      (\<exists>c'. game_loop (nat innings) lineup (0, [], 0) g = Some (Inr ((t, sc, c'), g')))
      \<and> nm = map name lineup"
    unfolding simulate_game_def and_then_def game
    by (auto split: option.splits sum.splits)
  also have "\<dots> \<longleftrightarrow> (\<exists>c'. length sc = nat innings \<and> t = sum_list sc
      \<and> innings_from lineup 0 g sc c' g') \<and> nm = map name lineup"
    by (simp add: game_loop_iff)
  finally show ?thesis unfolding game by auto
qed

lemma simulate_inning_valid:
  assumes "list_all valid_player lineup"
    and "- int (length lineup) \<le> c" and "c < int (length lineup)"
  shows "simulate_inning lineup c g \<noteq> Some (Inl e)"
    and "simulate_inning lineup c g = Some (Inr ((r, c'), g')) \<Longrightarrow>
           0 \<le> c' \<and> c' < int (length lineup)"
proof -
  have start: "in_play lineup (initial_state c)"
    using assms(2,3) by (simp add: in_play_def initial_state_def)
  have no_raise: "inning_loop lineup (initial_state c) g \<noteq> Some (Inl e)"
  proof
    assume "inning_loop lineup (initial_state c) g = Some (Inl e)"
    from loop_imp_steps [OF this] obtain k
      where "inning_steps k lineup (initial_state c) g = Inl e" by auto
    with inning_steps_in_play [OF assms(1) start, of k g] show False by simp
  qed
  then show "simulate_inning lineup c g \<noteq> Some (Inl e)"
    by (auto simp: simulate_inning_def and_then_def split: option.splits sum.splits)
  assume "simulate_inning lineup c g = Some (Inr ((r, c'), g'))"
  then obtain s' where s': "inning_loop lineup (initial_state c) g = Some (Inr (s', g'))"
    "current_batter s' = c'"
    by (auto simp: simulate_inning_def and_then_def split: option.splits sum.splits)
  from loop_imp_steps [OF s'(1)] obtain k
    where k: "inning_steps k lineup (initial_state c) g = Inr (s', g')" "\<not> n_outs s' < 3"
    by (auto simp: finished_def)
  from inning_steps_in_play [OF assms(1) start, of k g] k(1) have "in_play lineup s'" by simp
  with k(2) s'(2) show "0 \<le> c' \<and> c' < int (length lineup)"
    by (auto simp: in_play_def)
qed

lemma game_loop_no_raise:
  assumes "list_all valid_player lineup"
  shows "- int (length lineup) \<le> c \<Longrightarrow> c < int (length lineup) \<Longrightarrow>
     game_loop k lineup (tot, scores, c) g \<noteq> Some (Inl e)"
proof (induction k arbitrary: tot scores c g)
  case 0
  then show ?case by simp
next
  case (Suc k)
  show ?case
  proof (cases "simulate_inning lineup c g")
    case None
    then show ?thesis by (simp add: and_then_def)
  next
    case (Some x)
    show ?thesis
    proof (cases x)
      case (Inl e')
      with Some simulate_inning_valid(1) [OF assms Suc.prems, of g e'] show ?thesis by simp
    next
      case (Inr y)
      obtain r c1 g1 where y: "y = ((r, c1), g1)" by (cases y) auto
      from simulate_inning_valid(2) [OF assms Suc.prems, of g r c1 g1] Some Inr y
      have c1: "- int (length lineup) \<le> c1" "c1 < int (length lineup)" by simp_all
      from Suc.IH [OF c1, of "tot + r" "scores @ [r]" g1] Some Inr y
      show ?thesis by (simp add: and_then_def)
    qed
  qed
qed

lemma simulate_inning_empty: "simulate_inning [] c g = Some (Inl IndexError)"
proof -
  have "inning_loop [] (initial_state c) g = Some (Inl IndexError)"
    by (rule inning_loop_raise) (auto simp: initial_state_def at_bat_def subscript_def)
  then show ?thesis by (simp add: simulate_inning_def and_then_def)
qed

text \<open>
  C9, as the code has it. \<^verbatim>\<open>simulate_game\<close> returns a game exactly when the
  innings form a chain that starts at cursor 0 and hands each inning's cursor and
  generator to the next, every inning of the chain returning; the game then lists the
  runs of the innings in order, as many as the inning count (none for a count below 1),
  its total is their sum, and its lineup entry lists the players' names. It does not
  return for every input: with no inning to play it returns at once; with a lineup of
  valid players it never raises, but runs forever when an inning does; with an empty
  lineup and an inning to play it raises IndexError.
\<close>

theorem simulate_game_returns_iff:
  "(simulate_game lineup innings g = Some (Inr (game, g')) \<longleftrightarrow>
      length (inning_scores game) = nat innings
      \<and> total_runs game = sum_list (inning_scores game)
      \<and> game_lineup game = map name lineup
      \<and> (\<exists>c'. innings_from lineup 0 g (inning_scores game) c' g'))
   \<and> (innings \<le> 0 \<longrightarrow>
        simulate_game lineup innings g =
          Some (Inr (\<lparr>total_runs = 0, inning_scores = [], game_lineup = map name lineup\<rparr>, g)))
   \<and> (lineup \<noteq> [] \<and> list_all valid_player lineup \<longrightarrow>
        simulate_game lineup innings g \<noteq> Some (Inl e))
   \<and> (lineup = [] \<and> 0 < innings \<longrightarrow> simulate_game lineup innings g = Some (Inl IndexError))"
proof -
  have a: "innings \<le> 0 \<longrightarrow>
        simulate_game lineup innings g =
          Some (Inr (\<lparr>total_runs = 0, inning_scores = [], game_lineup = map name lineup\<rparr>, g))"
    by (simp add: simulate_game_def and_then_def)
  have b: "lineup \<noteq> [] \<and> list_all valid_player lineup \<longrightarrow>
        simulate_game lineup innings g \<noteq> Some (Inl e)"
  proof
    assume v: "lineup \<noteq> [] \<and> list_all valid_player lineup"
    then have "- int (length lineup) \<le> 0" "0 < int (length lineup)" by simp_all
    from game_loop_no_raise [OF _ this, of "nat innings" 0 "[]" g e] v
    show "simulate_game lineup innings g \<noteq> Some (Inl e)"
      by (auto simp: simulate_game_def and_then_def split: option.splits sum.splits)
  qed
  have c: "lineup = [] \<and> 0 < innings \<longrightarrow> simulate_game lineup innings g = Some (Inl IndexError)"
  proof
    assume e: "lineup = [] \<and> 0 < innings"
    then obtain k where "nat innings = Suc k" by (cases "nat innings") simp_all
    with e show "simulate_game lineup innings g = Some (Inl IndexError)"
      by (simp add: simulate_game_def and_then_def simulate_inning_empty)
  qed
  from simulate_game_iff [of lineup innings g game g'] a b c show ?thesis by blast
qed

theorem simulate_game_returns_iff_witness:
  "simulate_game [new_Player ''A'' 2 0 0 0 1] 2 (1 ## sconst 0) =
       Some (Inr (\<lparr>total_runs = 1, inning_scores = [1, 0], game_lineup = [''A'']\<rparr>, sconst 0))
   \<and> simulate_game [new_Player ''A'' 2 0 0 0 1] 0 (1 ## sconst 0) =
       Some (Inr (\<lparr>total_runs = 0, inning_scores = [], game_lineup = [''A'']\<rparr>, 1 ## sconst 0))
   \<and> simulate_game [new_Player ''A'' 2 0 0 0 1] 2 (1 ## sconst 0) \<noteq> Some (Inl IndexError)
   \<and> simulate_game [] 2 (1 ## sconst 0) = Some (Inl IndexError)"
proof -
  let ?L = "[new_Player ''A'' 2 0 0 0 1]"
  let ?game = "\<lparr>total_runs = 1, inning_scores = [1, 0], game_lineup = [''A'']\<rparr>"
  have i1: "simulate_inning ?L 0 (1 ## sconst 0) = Some (Inr ((1, 0), sconst 0))"
    by (simp add: simulate_inning_def and_then_def inning_loop.simps sim_defs)
  have i2: "simulate_inning ?L 0 (sconst 0) = Some (Inr ((0, 0), sconst 0))"
    by (simp add: simulate_inning_def and_then_def inning_loop.simps sim_defs)
  have ch: "innings_from ?L 0 (1 ## sconst 0) (inning_scores ?game) 0 (sconst 0)"
    using i1 i2 by simp
  have v: "?L \<noteq> [] \<and> list_all valid_player ?L"
    by (simp add: valid_player_def counts_ok_def new_Player_def)
  have nm: "map name ?L = [''A'']" by (simp add: new_Player_def)
  have g2: "simulate_game ?L 2 (1 ## sconst 0) = Some (Inr (?game, sconst 0))"
    using simulate_game_returns_iff [of ?L 2 "1 ## sconst 0" ?game "sconst 0" IndexError] ch nm
    by auto
  have g0: "simulate_game ?L 0 (1 ## sconst 0) =
       Some (Inr (\<lparr>total_runs = 0, inning_scores = [], game_lineup = [''A'']\<rparr>, 1 ## sconst 0))"
    using simulate_game_returns_iff [of ?L 0 "1 ## sconst 0" ?game "sconst 0" IndexError] nm
    by simp
  have nr: "simulate_game ?L 2 (1 ## sconst 0) \<noteq> Some (Inl IndexError)"
    using g2 by simp
  have em: "simulate_game [] 2 (1 ## sconst 0) = Some (Inl IndexError)"
    using simulate_game_returns_iff [of "[]" 2 "1 ## sconst 0" ?game "sconst 0" IndexError]
    by simp
  from g2 g0 nr em show ?thesis by blast
qed

text \<open>
  Three inputs on which no game of the stated shape comes back: a valid lineup whose
  only player has no out token (the first inning never ends), the empty lineup (the
  first at-bat raises), and the inning count \<open>- 1\<close> (the score list is empty).
\<close>

lemma only_singles_inning:
  "simulate_inning [new_Player ''A'' 1 1 0 0 0] 0 g = None"
proof -
  have "inning_loop [new_Player ''A'' 1 1 0 0 0] (initial_state 0) g = None"
  proof (cases "inning_loop [new_Player ''A'' 1 1 0 0 0] (initial_state 0) g")
    case (Some r)
    from only_singles_never_returns [OF this] show ?thesis by (simp add: initial_state_def)
  qed
  then show ?thesis by (simp add: simulate_inning_def and_then_def)
qed

theorem game_not_returned_counterexample:
  "list_all valid_player [new_Player ''A'' 1 1 0 0 0]
   \<and> simulate_game [new_Player ''A'' 1 1 0 0 0] 1 (sconst 0) = None
   \<and> simulate_game [] 1 (sconst 0) = Some (Inl IndexError)
   \<and> simulate_game [new_Player ''A'' 2 0 0 0 1] (- 1) (sconst 0) =
       Some (Inr (\<lparr>total_runs = 0, inning_scores = [], game_lineup = [''A'']\<rparr>, sconst 0))"
proof -
  have v: "list_all valid_player [new_Player ''A'' 1 1 0 0 0]"
    by (simp add: valid_player_def counts_ok_def new_Player_def)
  have n: "simulate_game [new_Player ''A'' 1 1 0 0 0] 1 (sconst 0) = None"
    by (simp add: simulate_game_def and_then_def only_singles_inning)
  have e: "simulate_game [] 1 (sconst 0) = Some (Inl IndexError)"
    by (simp add: simulate_game_def and_then_def simulate_inning_empty)
  have m: "simulate_game [new_Player ''A'' 2 0 0 0 1] (- 1) (sconst 0) =
       Some (Inr (\<lparr>total_runs = 0, inning_scores = [], game_lineup = [''A'']\<rparr>, sconst 0))"
    by (simp add: simulate_game_def and_then_def new_Player_def)
  from v n e m show ?thesis by (intro conjI)
qed

section \<open>Properties of the search\<close>

subsection \<open>Sampling without replacement\<close>

lemma mset_vacancy:
  assumes "j < length pool"
  shows "mset (butlast (pool[j := last pool])) = mset pool - {#pool ! j#}"
proof (cases pool rule: rev_cases)
  case Nil
  with assms show ?thesis by simp
next
  case (snoc ys z)
  show ?thesis
  proof (cases "j = length ys")
    case True
    with snoc show ?thesis by simp
  next
    case False
    with assms snoc have j: "j < length ys" by simp
    then have "butlast (pool[j := last pool]) = ys[j := z]"
      using snoc by (simp add: list_update_append)
    moreover have "pool ! j = ys ! j" using snoc j by (simp add: nth_append)
    ultimately show ?thesis using snoc j by (simp add: mset_update)
  qed
qed

lemma draw_k_mset:
  "k \<le> length pool \<Longrightarrow>
     length (fst (draw_k k pool g)) = k \<and> mset (fst (draw_k k pool g)) \<subseteq># mset pool"
proof (induction k arbitrary: pool g)
  case 0
  then show ?case by simp
next
  case (Suc k)
  let ?j = "shd g mod length pool"
  let ?pool' = "butlast (pool[?j := last pool])"
  from Suc.prems have "0 < length pool" by linarith
  then have j: "?j < length pool" by simp
  have len: "k \<le> length ?pool'" using Suc.prems by simp
  from Suc.IH [OF len, of "stl g"]
  have l: "length (fst (draw_k k ?pool' (stl g))) = k"
    and m: "mset (fst (draw_k k ?pool' (stl g))) \<subseteq># mset pool - {#pool ! ?j#}"
    by (simp_all add: mset_vacancy [OF j])
  have mem: "pool ! ?j \<in># mset pool" using j by simp
  have "add_mset (pool ! ?j) (mset (fst (draw_k k ?pool' (stl g)))) \<subseteq># mset pool"
    using m mem by (simp add: insert_subset_eq_iff)
  with l show ?case by (cases "draw_k k ?pool' (stl g)") (simp add: randbelow_def)
qed

lemma distinct_submultiset:
  assumes "mset xs \<subseteq># mset ys" and "distinct ys"
  shows "distinct xs"
proof -
  have "count (mset xs) a = (if a \<in> set xs then 1 else 0)" for a
  proof -
    have "count (mset xs) a \<le> count (mset ys) a"
      using assms(1) by (rule mset_subset_eq_count)
    moreover have "count (mset ys) a \<le> 1"
      using assms(2) by (simp add: distinct_count_atmost_1)
    moreover have "a \<in> set xs \<longleftrightarrow> 0 < count (mset xs) a" by simp
    ultimately show ?thesis by (cases "a \<in> set xs") (simp_all del: count_greater_zero_iff count_mset_0_iff)
  qed
  then show ?thesis unfolding distinct_count_atmost_1 by blast
qed

lemma draw_k_distinct:
  assumes "k \<le> length pool" and "distinct pool"
  shows "distinct (fst (draw_k k pool g)) \<and> set (fst (draw_k k pool g)) \<subseteq> set pool"
proof -
  have sub: "mset (fst (draw_k k pool g)) \<subseteq># mset pool"
    using draw_k_mset [OF assms(1)] by simp
  have "distinct (fst (draw_k k pool g))"
    using sub assms(2) by (rule distinct_submultiset)
  moreover have "set (fst (draw_k k pool g)) \<subseteq> set pool"
    using set_mset_mono [OF sub] by simp
  ultimately show ?thesis by simp
qed

lemma sample_ok:
  assumes "0 \<le> k" and "k \<le> int (length pool)"
  shows "\<exists>xs g'. sample pool k g = Inr (xs, g') \<and> int (length xs) = k \<and> mset xs \<subseteq># mset pool"
proof -
  have "nat k \<le> length pool" using assms by simp
  from draw_k_mset [OF this, of g] assms show ?thesis
    by (cases "draw_k (nat k) pool g") (simp add: sample_def)
qed

lemma sample_two:
  assumes "2 \<le> n"
  shows "\<exists>i j g'. sample [0..<n] 2 g = Inr ([i, j], g') \<and> i \<noteq> j \<and> i < n \<and> j < n"
proof -
  have k: "(2::nat) \<le> length [0..<n]" using assms by simp
  obtain xs g' where d: "draw_k 2 [0..<n] g = (xs, g')" by (cases "draw_k 2 [0..<n] g")
  from draw_k_mset [OF k, of g] d have "length xs = 2" by simp
  then obtain i j where xs: "xs = [i, j]"
    by (cases xs; cases "tl xs") auto
  from draw_k_distinct [OF k, of g] d xs have "i \<noteq> j" "i < n" "j < n" by auto
  with d xs assms show ?thesis by (simp add: sample_def)
qed

subsection \<open>The clamp of the lineup size\<close>

lemma fill_random_lengths:
  assumes "0 \<le> lineup_size opt" and "lineup_size opt \<le> int (length (players opt))"
  shows "\<exists>pop' g'. fill_random k opt pop g = Inr (pop @ pop', g') \<and> length pop' = k
     \<and> (\<forall>lineup \<in> set pop'. int (length lineup) = lineup_size opt \<and> mset lineup \<subseteq># mset (players opt))"
proof (induction k arbitrary: pop g)
  case 0
  then show ?case by simp
next
  case (Suc k)
  obtain lineup g1 where l: "create_random_lineup opt g = Inr (lineup, g1)"
    "int (length lineup) = lineup_size opt" "mset lineup \<subseteq># mset (players opt)"
    using sample_ok [OF assms, of g] by (auto simp: create_random_lineup_def)
  obtain pop' g' where p: "fill_random k opt (pop @ [lineup]) g1 = Inr ((pop @ [lineup]) @ pop', g')"
    "length pop' = k"
    "\<forall>lineup \<in> set pop'. int (length lineup) = lineup_size opt \<and> mset lineup \<subseteq># mset (players opt)"
    using Suc.IH [of "pop @ [lineup]" g1] by blast
  have "fill_random (Suc k) opt pop g = Inr (pop @ (lineup # pop'), g')"
    using l(1) p(1) by simp
  moreover have "length (lineup # pop') = Suc k" using p(2) by simp
  moreover have "\<forall>x \<in> set (lineup # pop'). int (length x) = lineup_size opt \<and> mset x \<subseteq># mset (players opt)"
    using l(2,3) p(3) by simp
  ultimately show ?case by blast
qed

text \<open>
  C10. For a lineup size that is not negative, however large: the constructor stores
  \<open>min lineup_size |roster|\<close>, and \<^verbatim>\<open>create_random_lineup\<close>,
  \<^verbatim>\<open>generate_random_lineup\<close> and every lineup of \<^verbatim>\<open>initialize_population\<close>
  return, without raising, a lineup of exactly that length drawn from the roster without
  replacement.
\<close>

theorem lineup_size_clamped:
  assumes "0 \<le> lineup_sz"
  shows "lineup_size (new_optimizer roster lineup_sz population_sz rate tournament_sz)
           = min lineup_sz (int (length roster))
     \<and> (\<exists>lineup g'. create_random_lineup
            (new_optimizer roster lineup_sz population_sz rate tournament_sz) g = Inr (lineup, g')
          \<and> int (length lineup) = min lineup_sz (int (length roster))
          \<and> mset lineup \<subseteq># mset roster)
     \<and> (\<exists>lineup g'. generate_random_lineup roster lineup_sz g = Inr (lineup, g')
          \<and> int (length lineup) = min lineup_sz (int (length roster))
          \<and> mset lineup \<subseteq># mset roster)
     \<and> (\<exists>opt' g'. initialize_population
            (new_optimizer roster lineup_sz population_sz rate tournament_sz) g = Inr (opt', g')
          \<and> length (population opt') = nat population_sz
          \<and> (\<forall>lineup \<in> set (population opt').
                int (length lineup) = min lineup_sz (int (length roster))
                \<and> mset lineup \<subseteq># mset roster))"
proof -
  let ?opt = "new_optimizer roster lineup_sz population_sz rate tournament_sz"
  let ?m = "min lineup_sz (int (length roster))"
  have sz: "lineup_size ?opt = ?m" and pl: "players ?opt = roster"
    and ps: "population_size ?opt = population_sz"
    by (simp_all add: new_optimizer_def)
  have lo: "0 \<le> lineup_size ?opt" and hi: "lineup_size ?opt \<le> int (length (players ?opt))"
    using assms by (simp_all add: sz pl)
  have c: "\<exists>lineup g'. create_random_lineup ?opt g = Inr (lineup, g')
          \<and> int (length lineup) = ?m \<and> mset lineup \<subseteq># mset roster"
    using sample_ok [OF lo hi, of g] by (simp add: create_random_lineup_def sz pl)
  have lo': "0 \<le> ?m" and hi': "?m \<le> int (length roster)" using assms by simp_all
  have "generate_random_lineup roster lineup_sz g = sample roster ?m g"
    by (simp add: generate_random_lineup_def min_def)
  then have r: "\<exists>lineup g'. generate_random_lineup roster lineup_sz g = Inr (lineup, g')
          \<and> int (length lineup) = ?m \<and> mset lineup \<subseteq># mset roster"
    using sample_ok [OF lo' hi', of g] by simp
  obtain pop' g' where f: "fill_random (nat population_sz) ?opt [] g = Inr ([] @ pop', g')"
    "length pop' = nat population_sz"
    "\<forall>lineup \<in> set pop'. int (length lineup) = lineup_size ?opt
        \<and> mset lineup \<subseteq># mset (players ?opt)"
    using fill_random_lengths [OF lo hi, of "nat population_sz" "[]" g] by blast
  have i: "\<exists>opt' g'. initialize_population ?opt g = Inr (opt', g')
          \<and> length (population opt') = nat population_sz
          \<and> (\<forall>lineup \<in> set (population opt').
                int (length lineup) = ?m \<and> mset lineup \<subseteq># mset roster)"
    using f by (simp add: initialize_population_def ps sz pl)
  from sz c r i show ?thesis by blast
qed

text \<open>The definitions an evaluation of the sampling unfolds.\<close>

lemmas ga_defs = new_optimizer_def create_random_lineup_def generate_random_lineup_def
  sample_def randbelow_def initialize_population_def

theorem lineup_size_clamped_witness:
  "(0::int) \<le> 9
   \<and> lineup_size (new_optimizer [new_Player ''A'' 2 1 0 0 0, new_Player ''B'' 2 1 0 0 0] 9 3 0 1) = 2
   \<and> create_random_lineup (new_optimizer [new_Player ''A'' 2 1 0 0 0, new_Player ''B'' 2 1 0 0 0] 9 3 0 1)
        (sconst 0) = Inr ([new_Player ''A'' 2 1 0 0 0, new_Player ''B'' 2 1 0 0 0], sconst 0)
   \<and> (\<exists>lineup g'. generate_random_lineup [new_Player ''A'' 2 1 0 0 0, new_Player ''B'' 2 1 0 0 0] 9
        (sconst 0) = Inr (lineup, g') \<and> int (length lineup) = 2)"
proof -
  have "(0::int) \<le> 9" by simp
  from lineup_size_clamped [OF this, of "[new_Player ''A'' 2 1 0 0 0, new_Player ''B'' 2 1 0 0 0]" 3 0 1 "sconst 0"]
  have "lineup_size (new_optimizer [new_Player ''A'' 2 1 0 0 0, new_Player ''B'' 2 1 0 0 0] 9 3 0 1) = 2"
    and "\<exists>lineup g'. generate_random_lineup [new_Player ''A'' 2 1 0 0 0, new_Player ''B'' 2 1 0 0 0] 9
        (sconst 0) = Inr (lineup, g') \<and> int (length lineup) = 2"
    by auto
  moreover have "create_random_lineup (new_optimizer [new_Player ''A'' 2 1 0 0 0, new_Player ''B'' 2 1 0 0 0] 9 3 0 1)
        (sconst 0) = Inr ([new_Player ''A'' 2 1 0 0 0, new_Player ''B'' 2 1 0 0 0], sconst 0)"
    by (simp add: ga_defs numeral_2_eq_2)
  ultimately show ?thesis by simp
qed

subsection \<open>Order crossover and swap mutation\<close>

lemma fill_positions_upt:
  "a \<le> b \<Longrightarrow> b \<le> length child \<Longrightarrow> k + (b - a) \<le> length src \<Longrightarrow>
     fill_positions [a..<b] child src k =
       Inr (take a child @ map Some (take (b - a) (drop k src)) @ drop b child, k + (b - a))"
proof (induction "b - a" arbitrary: a child k)
  case 0
  then show ?case by simp
next
  case (Suc n)
  then have ab: "a < b" and n: "n = b - Suc a" by simp_all
  have k: "k < length src" using Suc.prems(3) ab by simp
  have a: "a < length child" using ab Suc.prems(2) by simp
  let ?child = "child[a := Some (src ! k)]"
  have e0: "fill_positions [a..<b] child src k = fill_positions [Suc a..<b] ?child src (Suc k)"
    using ab k a by (simp add: upt_conv_Cons)
  have e1: "fill_positions [Suc a..<b] ?child src (Suc k) =
      Inr (take (Suc a) ?child @ map Some (take (b - Suc a) (drop (Suc k) src))
       @ drop b ?child, Suc k + (b - Suc a))"
    using Suc.hyps(1) [OF n] ab Suc.prems by simp
  have e2: "take (Suc a) ?child = take a child @ [Some (src ! k)]"
    using a by (simp add: take_Suc_conv_app_nth)
  have e3: "drop b ?child = drop b child" using ab by simp
  have e4: "take (b - a) (drop k src) = src ! k # take (b - Suc a) (drop (Suc k) src)"
    using ab k by (simp add: Cons_nth_drop_Suc [symmetric] take_Cons')
  show ?case unfolding e0 e1 e2 e3 e4 using ab by simp
qed

lemma ox_child_eq:
  assumes "start \<le> stop" and "stop \<le> length parent1"
    and "start + (length parent1 - stop)
           \<le> length (filter (\<lambda>p. p \<notin> set (slice start stop parent1)) parent2)"
  shows "ox_child parent1 parent2 start stop =
     Inr (take start (filter (\<lambda>p. p \<notin> set (slice start stop parent1)) parent2)
          @ slice start stop parent1
          @ take (length parent1 - stop)
              (drop start (filter (\<lambda>p. p \<notin> set (slice start stop parent1)) parent2)))"
proof -
  let ?n = "length parent1"
  let ?seg = "slice start stop parent1"
  let ?F = "filter (\<lambda>p. p \<notin> set ?seg) parent2"
  let ?child1 = "take start (replicate ?n None) @ map Some ?seg @ drop stop (replicate ?n None)"
  have seg: "length ?seg = stop - start" using assms(1,2) by (simp add: slice_def)
  have len1: "length ?child1 = ?n" using assms(1,2) seg by simp
  have sl: "slice start stop ?child1 = map Some ?seg"
    using assms(1,2) seg by (simp add: slice_def)
  have F: "filter (\<lambda>p. Some p \<notin> set (slice start stop ?child1)) parent2 = ?F"
    unfolding sl by (rule filter_cong) auto
  let ?child2 = "map Some (take start ?F) @ map Some ?seg @ drop stop (replicate ?n None)"
  have f1: "fill_positions [0..<start] ?child1 ?F 0 = Inr (?child2, start)"
  proof -
    have "fill_positions [0..<start] ?child1 ?F 0 =
        Inr (take 0 ?child1 @ map Some (take (start - 0) (drop 0 ?F)) @ drop start ?child1, 0 + (start - 0))"
      by (rule fill_positions_upt) (use assms len1 in simp_all)
    also have "drop start ?child1 = map Some ?seg @ drop stop (replicate ?n None)"
      using assms(1,2) by simp
    finally show ?thesis by simp
  qed
  have len2: "length ?child2 = ?n" using assms seg by simp
  let ?tail = "take (?n - stop) (drop start ?F)"
  have f2: "fill_positions [stop..<?n] ?child2 ?F start =
      Inr (map Some (take start ?F) @ map Some ?seg @ map Some ?tail, start + (?n - stop))"
  proof -
    have "fill_positions [stop..<?n] ?child2 ?F start =
        Inr (take stop ?child2 @ map Some (take (?n - stop) (drop start ?F)) @ drop ?n ?child2,
             start + (?n - stop))"
      by (rule fill_positions_upt) (use assms len2 in simp_all)
    also have "take stop ?child2 = map Some (take start ?F) @ map Some ?seg"
      using assms seg by simp
    also have "drop ?n ?child2 = []" using len2 by simp
    finally show ?thesis by simp
  qed
  have "map the (map Some (take start ?F) @ map Some ?seg @ map Some ?tail)
      = take start ?F @ ?seg @ ?tail"
    by (simp add: comp_def)
  with f1 f2 F show ?thesis
    by (simp add: ox_child_def Let_def)
qed

lemma insert_segment:
  assumes "distinct F" and "distinct seg" and "set seg \<inter> set F = {}"
  shows "distinct (take n F @ seg @ drop n F)"
    and "set (take n F @ seg @ drop n F) = set F \<union> set seg"
proof -
  have u: "set (take n F) \<union> set (drop n F) = set F"
    using set_append [of "take n F" "drop n F"] by simp
  have d: "distinct (take n F)" "distinct (drop n F)"
    "set (take n F) \<inter> set (drop n F) = {}"
    using assms(1) by (simp_all add: set_take_disj_set_drop_if_distinct)
  show "set (take n F @ seg @ drop n F) = set F \<union> set seg"
    using u by auto
  show "distinct (take n F @ seg @ drop n F)"
    using d u assms(2,3) by auto
qed

lemma ox_child_permutation:
  assumes d1: "distinct parent1" and d2: "distinct parent2" and s: "set parent1 = set parent2"
    and c: "start \<le> stop" "stop \<le> length parent1"
  shows "\<exists>child. ox_child parent1 parent2 start stop = Inr child \<and> mset child = mset parent1
     \<and> distinct child \<and> length child = length parent1
     \<and> slice start stop child = slice start stop parent1"
proof -
  let ?n = "length parent1"
  let ?seg = "slice start stop parent1"
  let ?F = "filter (\<lambda>p. p \<notin> set ?seg) parent2"
  have "card (set parent1) = length parent1" and "card (set parent2) = length parent2"
    using d1 d2 by (simp_all add: distinct_card)
  with s have len: "length parent2 = ?n" by simp
  have seg: "length ?seg = stop - start" using c by (simp add: slice_def)
  have dseg: "distinct ?seg" using d1 by (simp add: slice_def)
  have sseg: "set ?seg \<subseteq> set parent2"
    using s by (auto simp: slice_def dest: in_set_takeD in_set_dropD)
  have "{x. x \<notin> set ?seg} \<inter> set parent2 = set parent2 - set ?seg" by auto
  then have "length ?F = card (set parent2 - set ?seg)"
    using distinct_length_filter [OF d2, of "\<lambda>p. p \<notin> set ?seg"] by simp
  also have "\<dots> = card (set parent2) - card (set ?seg)"
    using sseg by (simp add: card_Diff_subset)
  also have "\<dots> = ?n - (stop - start)"
    using d2 dseg len seg by (simp add: distinct_card)
  finally have lenF: "length ?F = ?n - (stop - start)" .
  then have enough: "start + (?n - stop) \<le> length ?F" using c by simp
  have tail: "take (?n - stop) (drop start ?F) = drop start ?F"
    using lenF c by simp
  let ?child = "take start ?F @ ?seg @ drop start ?F"
  have eq: "ox_child parent1 parent2 start stop = Inr ?child"
    using ox_child_eq [OF c enough] tail by simp
  have dF: "distinct ?F" using d2 by simp
  have disj: "set ?seg \<inter> set ?F = {}" by auto
  have dchild: "distinct ?child" using dF dseg disj by (rule insert_segment(1))
  have "set ?child = set ?F \<union> set ?seg" using dF dseg disj by (rule insert_segment(2))
  also have "set ?F = set parent2 - set ?seg" by auto
  also have "(set parent2 - set ?seg) \<union> set ?seg = set parent1" using sseg s by blast
  finally have schild: "set ?child = set parent1" .
  have m: "mset ?child = mset parent1"
    using set_eq_iff_mset_eq_distinct [OF dchild d1] schild by blast
  have l: "length ?child = ?n" using m by (rule mset_eq_length)
  have "length (take start ?F) = start" using lenF c by simp
  then have sl: "slice start stop ?child = ?seg"
    using seg c by (simp add: slice_def)
  from eq m dchild l sl show ?thesis by blast
qed

lemma order_crossover_permutation:
  assumes d1: "distinct parent1" and d2: "distinct parent2" and s: "set parent1 = set parent2"
    and n: "2 \<le> length parent1"
  shows "\<exists>child g'. order_crossover parent1 parent2 g = Inr (child, g')
     \<and> mset child = mset parent1 \<and> distinct child \<and> length child = length parent1"
proof -
  obtain i j g' where sm: "sample [0..<length parent1] 2 g = Inr ([i, j], g')"
    and ij: "i \<noteq> j" "i < length parent1" "j < length parent1"
    using sample_two [OF n, of g] by blast
  have so: "sort [i, j] = [min i j, max i j]" by (simp add: min_def max_def)
  have c: "min i j \<le> max i j" "max i j \<le> length parent1" using ij by simp_all
  obtain child where ch: "ox_child parent1 parent2 (min i j) (max i j) = Inr child"
    "mset child = mset parent1" "distinct child" "length child = length parent1"
    using ox_child_permutation [OF d1 d2 s c] by blast
  have "order_crossover parent1 parent2 g = Inr (child, g')"
    using sm ch(1) by (simp add: order_crossover_def so del: sort_key_simps)
  with ch show ?thesis by blast
qed

lemma order_crossover_short:
  "length parent1 < 2 \<Longrightarrow> order_crossover parent1 parent2 g = Inl ValueError"
  by (simp add: order_crossover_def sample_def)

lemma swap_mutation_mset:
  assumes "swap_mutation opt lineup g = Inr (mutated, g')"
  shows "mset mutated = mset lineup"
proof (cases "fst (random_unit g) < mutation_rate opt")
  case False
  with assms show ?thesis by (simp add: swap_mutation_def split: prod.splits)
next
  case True
  obtain u g1 where r: "random_unit g = (u, g1)" by (cases "random_unit g")
  with True assms obtain ij where sm: "sample [0..<length lineup] 2 g1 = Inr (ij, g')"
    and ij: "(case ij of [i, j] \<Rightarrow> Inr ((lineup[i := lineup ! j])[j := lineup ! i], g')
                | _ \<Rightarrow> Inl ValueError) = Inr (mutated, g')"
    by (auto simp: swap_mutation_def split: sum.splits list.splits)
  have two: "2 \<le> length lineup"
    using sm by (simp add: sample_def split: if_splits)
  from sample_two [OF two, of g1] sm obtain i j
    where "ij = [i, j]" "i < length lineup" "j < length lineup" by auto
  with ij mset_swap [of j lineup i] show ?thesis by simp
qed

lemma swap_mutation_returns:
  assumes "2 \<le> length lineup"
  shows "\<exists>mutated g'. swap_mutation opt lineup g = Inr (mutated, g')"
proof -
  obtain u g1 where r: "random_unit g = (u, g1)" by (cases "random_unit g")
  obtain i j g2 where "sample [0..<length lineup] 2 g1 = Inr ([i, j], g2)"
    using sample_two [OF assms, of g1] by blast
  with r show ?thesis by (simp add: swap_mutation_def)
qed

text \<open>
  C5. Two parents that are duplicate-free and have the same players (hence the same
  length). For every cut-point pair \<open>start \<le> stop \<le> size\<close> the child is a
  permutation of the parents' players, duplicate-free and of the same length, with the
  segment of the first parent in place. \<^verbatim>\<open>order_crossover\<close> draws its own cut points
  and returns such a child whenever there are two positions to draw (and raises
  ValueError when there are not). \<^verbatim>\<open>swap_mutation\<close> returns a permutation of its
  input whenever it returns, and it returns for every lineup of two or more players.
\<close>

theorem crossover_mutation_permute:
  assumes "distinct parent1" and "distinct parent2" and "set parent1 = set parent2"
  shows "(start \<le> stop \<and> stop \<le> length parent1 \<longrightarrow>
            (\<exists>child. ox_child parent1 parent2 start stop = Inr child
               \<and> mset child = mset parent1 \<and> distinct child \<and> length child = length parent1
               \<and> slice start stop child = slice start stop parent1))
     \<and> (2 \<le> length parent1 \<longrightarrow>
            (\<exists>child g'. order_crossover parent1 parent2 g = Inr (child, g')
               \<and> mset child = mset parent1 \<and> distinct child \<and> length child = length parent1))
     \<and> (length parent1 < 2 \<longrightarrow> order_crossover parent1 parent2 g = Inl ValueError)
     \<and> (2 \<le> length parent1 \<longrightarrow>
            (\<exists>mutated g'. swap_mutation opt parent1 g = Inr (mutated, g')
               \<and> mset mutated = mset parent1 \<and> distinct mutated
               \<and> length mutated = length parent1))
     \<and> (\<forall>mutated g'. swap_mutation opt parent1 g = Inr (mutated, g') \<longrightarrow>
            mset mutated = mset parent1)"
proof -
  have a: "start \<le> stop \<and> stop \<le> length parent1 \<longrightarrow>
            (\<exists>child. ox_child parent1 parent2 start stop = Inr child
               \<and> mset child = mset parent1 \<and> distinct child \<and> length child = length parent1
               \<and> slice start stop child = slice start stop parent1)"
    using ox_child_permutation [OF assms] by blast
  have b: "2 \<le> length parent1 \<longrightarrow>
            (\<exists>child g'. order_crossover parent1 parent2 g = Inr (child, g')
               \<and> mset child = mset parent1 \<and> distinct child \<and> length child = length parent1)"
    using order_crossover_permutation [OF assms] by blast
  have c: "length parent1 < 2 \<longrightarrow> order_crossover parent1 parent2 g = Inl ValueError"
    by (simp add: order_crossover_short)
  have e: "\<forall>mutated g'. swap_mutation opt parent1 g = Inr (mutated, g') \<longrightarrow>
            mset mutated = mset parent1"
    using swap_mutation_mset by blast
  have d: "2 \<le> length parent1 \<longrightarrow>
            (\<exists>mutated g'. swap_mutation opt parent1 g = Inr (mutated, g')
               \<and> mset mutated = mset parent1 \<and> distinct mutated
               \<and> length mutated = length parent1)"
  proof
    assume "2 \<le> length parent1"
    then obtain mutated g' where m: "swap_mutation opt parent1 g = Inr (mutated, g')"
      using swap_mutation_returns by blast
    then have ms: "mset mutated = mset parent1" by (rule swap_mutation_mset)
    then have "distinct mutated" "length mutated = length parent1"
      using assms(1) mset_eq_imp_distinct_iff mset_eq_length by blast+
    with m ms show "\<exists>mutated g'. swap_mutation opt parent1 g = Inr (mutated, g')
               \<and> mset mutated = mset parent1 \<and> distinct mutated
               \<and> length mutated = length parent1" by blast
  qed
  from a b c d e show ?thesis by blast
qed

text \<open>A crossover of three players, cut at positions 1 and 2.\<close>

lemma ox_eval:
  assumes "a \<noteq> b" "a \<noteq> c" "b \<noteq> c"
  shows "ox_child [a, b, c] [c, a, b] 1 2 = Inr [c, b, a]"
  using assms ox_child_eq [of 1 2 "[a, b, c]" "[c, a, b]"] by (simp add: slice_def)

theorem crossover_mutation_permute_witness:
  "distinct [new_Player ''A'' 2 1 0 0 0, new_Player ''B'' 2 1 0 0 0, new_Player ''C'' 2 1 0 0 0]
   \<and> ox_child [new_Player ''A'' 2 1 0 0 0, new_Player ''B'' 2 1 0 0 0, new_Player ''C'' 2 1 0 0 0]
        [new_Player ''C'' 2 1 0 0 0, new_Player ''A'' 2 1 0 0 0, new_Player ''B'' 2 1 0 0 0] 1 2
      = Inr [new_Player ''C'' 2 1 0 0 0, new_Player ''B'' 2 1 0 0 0, new_Player ''A'' 2 1 0 0 0]
   \<and> (\<exists>child g'. order_crossover
          [new_Player ''A'' 2 1 0 0 0, new_Player ''B'' 2 1 0 0 0, new_Player ''C'' 2 1 0 0 0]
          [new_Player ''C'' 2 1 0 0 0, new_Player ''A'' 2 1 0 0 0, new_Player ''B'' 2 1 0 0 0]
          (sconst 0) = Inr (child, g')
        \<and> mset child = mset [new_Player ''A'' 2 1 0 0 0, new_Player ''B'' 2 1 0 0 0, new_Player ''C'' 2 1 0 0 0]
        \<and> distinct child)
   \<and> (\<exists>mutated g'. swap_mutation (new_optimizer [] 3 2 1 1)
          [new_Player ''A'' 2 1 0 0 0, new_Player ''B'' 2 1 0 0 0, new_Player ''C'' 2 1 0 0 0]
          (sconst 0) = Inr (mutated, g')
        \<and> mset mutated = mset [new_Player ''A'' 2 1 0 0 0, new_Player ''B'' 2 1 0 0 0, new_Player ''C'' 2 1 0 0 0])"
proof -
  let ?A = "new_Player ''A'' 2 1 0 0 0" and ?B = "new_Player ''B'' 2 1 0 0 0"
    and ?C = "new_Player ''C'' 2 1 0 0 0"
  have ne: "?A \<noteq> ?B" "?A \<noteq> ?C" "?B \<noteq> ?C" by (simp_all add: new_Player_def)
  have d1: "distinct [?A, ?B, ?C]" and d2: "distinct [?C, ?A, ?B]"
    and s: "set [?A, ?B, ?C] = set [?C, ?A, ?B]"
    using ne by auto
  have ox: "ox_child [?A, ?B, ?C] [?C, ?A, ?B] 1 2 = Inr [?C, ?B, ?A]"
    using ne by (rule ox_eval)
  from crossover_mutation_permute [OF d1 d2 s, of 1 2 "sconst 0" "new_optimizer [] 3 2 1 1"]
  have "\<exists>child g'. order_crossover [?A, ?B, ?C] [?C, ?A, ?B] (sconst 0) = Inr (child, g')
        \<and> mset child = mset [?A, ?B, ?C] \<and> distinct child"
    and "\<exists>mutated g'. swap_mutation (new_optimizer [] 3 2 1 1) [?A, ?B, ?C] (sconst 0) = Inr (mutated, g')
        \<and> mset mutated = mset [?A, ?B, ?C]"
    by auto
  with d1 ox show ?thesis by blast
qed

subsection \<open>The fitness cache\<close>

lemma evaluate_fitness_hit:
  "fitness_cache opt (map name lineup) = Some v \<Longrightarrow>
     evaluate_fitness opt lineup num_games innings g = Some (Inr ((v, opt), g))"
  by (simp add: evaluate_fitness_def)

lemma evaluate_fitness_miss:
  assumes "fitness_cache opt (map name lineup) = None"
  shows "evaluate_fitness opt lineup num_games innings g = Some (Inr ((v, opt1), g1)) \<longleftrightarrow>
     (\<exists>result. evaluate_lineup lineup num_games innings g = Some (Inr (result, g1))
        \<and> v = mean_runs result
        \<and> opt1 = opt\<lparr>fitness_cache := (fitness_cache opt)(map name lineup \<mapsto> v)\<rparr>)"
  using assms
  by (auto simp: evaluate_fitness_def and_then_def split: option.splits sum.splits)

lemma evaluate_fitness_stores:
  assumes "evaluate_fitness opt lineup num_games innings g = Some (Inr ((v, opt1), g1))"
  shows "fitness_cache opt1 (map name lineup) = Some v
     \<and> fitness_cache opt \<subseteq>\<^sub>m fitness_cache opt1
     \<and> population opt1 = population opt \<and> population_size opt1 = population_size opt"
proof (cases "fitness_cache opt (map name lineup)")
  case None
  from assms [unfolded evaluate_fitness_miss [OF None]] None show ?thesis
    by (auto simp: map_le_def)
next
  case (Some w)
  with assms show ?thesis by (simp add: evaluate_fitness_hit)
qed

lemma eval_population_scores:
  "eval_population pop opt num_games innings acc g = Some (Inr ((fs, opt1), g1)) \<Longrightarrow>
     \<exists>fs'. fs = acc @ fs' \<and> length fs' = length pop
       \<and> population opt1 = population opt \<and> population_size opt1 = population_size opt
       \<and> fitness_cache opt \<subseteq>\<^sub>m fitness_cache opt1
       \<and> (\<forall>j < length pop. fitness_cache opt1 (map name (pop ! j)) = Some (fs' ! j))"
proof (induction pop arbitrary: opt acc g)
  case Nil
  then show ?case by simp
next
  case (Cons l ls)
  from Cons.prems obtain f opt' g' where
    ev: "evaluate_fitness opt l num_games innings g = Some (Inr ((f, opt'), g'))"
    and rest: "eval_population ls opt' num_games innings (acc @ [f]) g' = Some (Inr ((fs, opt1), g1))"
    by (auto simp: and_then_def split: option.splits sum.splits)
  from evaluate_fitness_stores [OF ev]
  have st: "fitness_cache opt' (map name l) = Some f" "fitness_cache opt \<subseteq>\<^sub>m fitness_cache opt'"
    "population opt' = population opt" "population_size opt' = population_size opt" by simp_all
  from Cons.IH [OF rest] obtain fs' where
    r: "fs = (acc @ [f]) @ fs'" "length fs' = length ls"
    "population opt1 = population opt' \<and> population_size opt1 = population_size opt'"
    "fitness_cache opt' \<subseteq>\<^sub>m fitness_cache opt1"
    "\<forall>j < length ls. fitness_cache opt1 (map name (ls ! j)) = Some (fs' ! j)"
    by blast
  have a: "fs = acc @ (f # fs')" using r(1) by simp
  have b: "length (f # fs') = length (l # ls)" using r(2) by simp
  have c: "population opt1 = population opt \<and> population_size opt1 = population_size opt"
    using r(3) st(3,4) by simp
  have d: "fitness_cache opt \<subseteq>\<^sub>m fitness_cache opt1"
    using st(2) r(4) by (rule map_le_trans)
  have "fitness_cache opt1 (map name l) = Some f"
    using st(1) r(4) by (auto simp: map_le_def dom_def)
  then have e: "\<forall>j < length (l # ls). fitness_cache opt1 (map name ((l # ls) ! j)) = Some ((f # fs') ! j)"
    using r(5) by (auto simp: nth_Cons split: nat.splits)
  from a b c d e show ?case by blast
qed

subsection \<open>Elitism\<close>

lemma py_max_id:
  "py_max (\<lambda>f. f) (x # rest) = Inr (Max (set (x # rest)))"
proof -
  have "foldl (\<lambda>best y. if best < y then y else best) x rest = fold max rest x"
  proof (induction rest arbitrary: x)
    case Nil
    then show ?case by simp
  next
    case (Cons y ys)
    have "(if x < y then y else x) = max y x" by (auto simp: max_def)
    with Cons show ?case by simp
  qed
  with Max.set_eq_fold [of x rest] show ?thesis by (simp add: py_max_def)
qed

lemma breed_stop:
  "\<not> int (length new) < population_size opt \<Longrightarrow> breed opt pop fs new g = Inr (new, g)"
  by (subst breed.simps) simp

lemma breed_step:
  assumes "int (length new) < population_size opt"
  shows "breed opt pop fs new g = Inr (new', g') \<longleftrightarrow>
    (\<exists>parent1 g1 parent2 g2 child g3 mutated g4.
       tournament_selection opt pop fs g = Inr (parent1, g1)
       \<and> tournament_selection opt pop fs g1 = Inr (parent2, g2)
       \<and> order_crossover parent1 parent2 g2 = Inr (child, g3)
       \<and> swap_mutation opt child g3 = Inr (mutated, g4)
       \<and> breed opt pop fs (new @ [mutated]) g4 = Inr (new', g'))"
  apply (subst breed.simps)
  using assms apply (simp split: sum.splits prod.splits)
  done


lemma index_of_first:
  "v \<in> set xs \<Longrightarrow>
     \<exists>i < length xs. index_of v xs = Inr i \<and> xs ! i = v \<and> (\<forall>j < i. xs ! j \<noteq> v)"
proof (induction xs)
  case Nil
  then show ?case by simp
next
  case (Cons x xs)
  show ?case
  proof (cases "x = v")
    case True
    then show ?thesis by simp
  next
    case False
    with Cons.prems have "v \<in> set xs" by simp
    from Cons.IH [OF this] obtain i where
      i: "i < length xs" "index_of v xs = Inr i" "xs ! i = v" "\<forall>j < i. xs ! j \<noteq> v" by blast
    have "\<forall>j < Suc i. (x # xs) ! j \<noteq> v"
      using False i(4) by (auto simp: nth_Cons split: nat.splits)
    with False i have "Suc i < length (x # xs) \<and> index_of v (x # xs) = Inr (Suc i)
        \<and> (x # xs) ! Suc i = v \<and> (\<forall>j < Suc i. (x # xs) ! j \<noteq> v)" by simp
    then show ?thesis by blast
  qed
qed

lemma breed_extends:
  "breed opt pop fs new g = Inr (new', g') \<Longrightarrow>
     \<exists>children. new' = new @ children
       \<and> int (length new') = max (int (length new)) (population_size opt)"
proof (induction "nat (population_size opt - int (length new))" arbitrary: new g)
  case 0
  then have "\<not> int (length new) < population_size opt" by simp
  with "0.prems" show ?case by (simp add: breed_stop)
next
  case (Suc n)
  then have lt: "int (length new) < population_size opt" by simp
  from Suc.prems [unfolded breed_step [OF lt]] obtain mutated g4 where
    rest: "breed opt pop fs (new @ [mutated]) g4 = Inr (new', g')" by blast
  have "n = nat (population_size opt - int (length (new @ [mutated])))"
    using Suc.hyps(2) by simp
  from Suc.hyps(1) [OF this rest] obtain children where
    "new' = (new @ [mutated]) @ children"
    "int (length new') = max (int (length (new @ [mutated]))) (population_size opt)"
    by blast
  with lt have "new' = new @ (mutated # children)
      \<and> int (length new') = max (int (length new)) (population_size opt)"
    by simp
  then show ?case by blast
qed

lemma and_then_Inr:
  "and_then m f = Some (Inr r) \<longleftrightarrow> (\<exists>x g. m = Some (Inr (x, g)) \<and> f x g = Some (Inr r))"
  by (cases m; simp add: and_then_def split: sum.splits prod.splits)

lemma evolve_generation_parts:
  assumes "evolve_generation opt num_games innings g = Some (Inr (((fs, best), opt'), g'))"
  shows "\<exists>opt1 g1 best_idx new_population.
       eval_population (population opt) opt num_games innings [] g = Some (Inr ((fs, opt1), g1))
     \<and> py_max (\<lambda>f. f) fs = Inr best \<and> index_of best fs = Inr best_idx
     \<and> best_idx < length (population opt)
     \<and> breed opt1 (population opt) fs [population opt ! best_idx] g1 = Inr (new_population, g')
     \<and> opt' = opt1\<lparr>population := new_population\<rparr>"
proof -
  from assms [unfolded evolve_generation_def and_then_Inr] obtain x g1 where
    ev: "eval_population (population opt) opt num_games innings [] g = Some (Inr (x, g1))"
    and k: "(case x of (fitness_scores, opt1) \<Rightarrow> \<lambda>g1.
          case py_max (\<lambda>f. f) fitness_scores of
            Inl e \<Rightarrow> Some (Inl e)
          | Inr best \<Rightarrow>
              (case index_of best fitness_scores of
                 Inl e \<Rightarrow> Some (Inl e)
               | Inr best_idx \<Rightarrow>
                   (case subscript (population opt1) (int best_idx) of
                      Inl e \<Rightarrow> Some (Inl e)
                    | Inr elite \<Rightarrow>
                        (case breed opt1 (population opt1) fitness_scores [elite] g1 of
                           Inl e \<Rightarrow> Some (Inl e)
                         | Inr (new_population, g2) \<Rightarrow>
                             Some (Inr (((fitness_scores, best),
                                         opt1\<lparr>population := new_population\<rparr>), g2)))))) g1
        = Some (Inr (((fs, best), opt'), g'))"
    by blast
  obtain fs1 opt1 where x: "x = (fs1, opt1)" by (cases x)
  obtain b1 where m: "py_max (\<lambda>f. f) fs1 = Inr b1"
    using k unfolding x by (cases "py_max (\<lambda>f. f) fs1") simp_all
  obtain best_idx where i: "index_of b1 fs1 = Inr best_idx"
    using k unfolding x by (cases "index_of b1 fs1") (simp_all add: m)
  obtain elite where e: "subscript (population opt1) (int best_idx) = Inr elite"
    using k unfolding x by (cases "subscript (population opt1) (int best_idx)") (simp_all add: m i)
  obtain new_population g2 where b: "breed opt1 (population opt1) fs1 [elite] g1 = Inr (new_population, g2)"
    using k unfolding x by (cases "breed opt1 (population opt1) fs1 [elite] g1") (auto simp: m i e)
  from k have r: "fs1 = fs" "b1 = best" "opt' = opt1\<lparr>population := new_population\<rparr>" "g2 = g'"
    unfolding x by (simp_all add: m i e b)
  from eval_population_scores [OF ev [unfolded x]] have pop: "population opt1 = population opt" by auto
  from e have "best_idx < length (population opt1) \<and> elite = population opt1 ! best_idx"
    by (auto simp: subscript_def split: if_splits)
  with ev x m i b r pop show ?thesis by auto
qed

text \<open>
  C6. Whenever a generation step returns: the fitness scores are those of the lineups of
  the current population, in order (each is the cache entry of its lineup); \<open>best\<close> is
  their maximum and \<open>best_idx\<close> the first position that holds it; and the lineup at
  \<open>best_idx\<close> is, unchanged, the first member of the next population, put there
  before any child. The next population has \<open>population_size\<close> members, or the elite
  alone when \<open>population_size\<close> is below 1.
\<close>

theorem elitism:
  assumes "evolve_generation opt num_games innings g = Some (Inr (((fitness_scores, best), opt'), g'))"
  shows "\<exists>best_idx < length (population opt).
       length fitness_scores = length (population opt)
     \<and> (\<forall>i < length (population opt).
           fitness_cache opt' (map name (population opt ! i)) = Some (fitness_scores ! i))
     \<and> fitness_scores ! best_idx = best
     \<and> (\<forall>i < length fitness_scores. fitness_scores ! i \<le> best)
     \<and> (\<forall>i < best_idx. fitness_scores ! i < best)
     \<and> population opt' \<noteq> []
     \<and> population opt' ! 0 = population opt ! best_idx
     \<and> population opt ! best_idx \<in> set (population opt')
     \<and> int (length (population opt')) = max 1 (population_size opt)"
proof -
  from evolve_generation_parts [OF assms] obtain opt1 g1 best_idx new_population where
    ev: "eval_population (population opt) opt num_games innings [] g
           = Some (Inr ((fitness_scores, opt1), g1))"
    and m: "py_max (\<lambda>f. f) fitness_scores = Inr best"
    and i: "index_of best fitness_scores = Inr best_idx"
    and lt: "best_idx < length (population opt)"
    and b: "breed opt1 (population opt) fitness_scores [population opt ! best_idx] g1
              = Inr (new_population, g')"
    and o: "opt' = opt1\<lparr>population := new_population\<rparr>"
    by blast
  from eval_population_scores [OF ev]
  have len: "length fitness_scores = length (population opt)"
    and ps: "population_size opt1 = population_size opt"
    and cache: "\<forall>j < length (population opt).
        fitness_cache opt1 (map name (population opt ! j)) = Some (fitness_scores ! j)"
    by auto
  from lt len obtain x rest where fs: "fitness_scores = x # rest"
    by (cases fitness_scores) auto
  from m have best: "best = Max (set fitness_scores)"
    unfolding fs py_max_id by simp
  have "Max (set fitness_scores) \<in> set fitness_scores"
    by (rule Max_in) (simp_all add: fs)
  with best have mem: "best \<in> set fitness_scores" by simp
  from index_of_first [OF mem] i
  have at: "fitness_scores ! best_idx = best" and first: "\<forall>j < best_idx. fitness_scores ! j \<noteq> best"
    by auto
  have le: "\<forall>i < length fitness_scores. fitness_scores ! i \<le> best"
    unfolding best by simp
  have less: "\<forall>i < best_idx. fitness_scores ! i < best"
    using le first lt len by (auto simp: less_le)
  from breed_extends [OF b] obtain children where
    np: "new_population = [population opt ! best_idx] @ children"
    "int (length new_population) = max (int (length [population opt ! best_idx])) (population_size opt1)"
    by blast
  have p0: "population opt' \<noteq> []" "population opt' ! 0 = population opt ! best_idx"
    "population opt ! best_idx \<in> set (population opt')"
    "int (length (population opt')) = max 1 (population_size opt)"
    using np o ps by simp_all
  have c': "\<forall>i < length (population opt).
           fitness_cache opt' (map name (population opt ! i)) = Some (fitness_scores ! i)"
    using cache o by simp
  from lt len c' at le less p0 show ?thesis by blast
qed

subsection \<open>A worked generation\<close>

text \<open>
  Player A hits a home run in every at-bat, player B is always out. With one game of
  one inning, the lineup A, B scores 3 runs and the lineup B, A scores 2; the generator
  below delivers 0 at every draw.
\<close>

lemma inning_AB:
  "simulate_inning [new_Player ''A'' 1 0 0 0 1, new_Player ''B'' 1 0 0 0 0] 0 (sconst 0)
     = Some (Inr ((3, 0), sconst 0))"
  by (simp add: simulate_inning_def and_then_def inning_loop.simps sim_defs)

lemma inning_BA:
  "simulate_inning [new_Player ''B'' 1 0 0 0 0, new_Player ''A'' 1 0 0 0 1] 0 (sconst 0)
     = Some (Inr ((2, 1), sconst 0))"
  by (simp add: simulate_inning_def and_then_def inning_loop.simps sim_defs)

lemma lineup_AB:
  "evaluate_lineup [new_Player ''A'' 1 0 0 0 1, new_Player ''B'' 1 0 0 0 0] 1 1 (sconst 0)
     = Some (Inr (\<lparr>result_lineup = [new_Player ''A'' 1 0 0 0 1, new_Player ''B'' 1 0 0 0 0],
                    runs_per_game = [3], mean_runs = 3, total_games = 1\<rparr>, sconst 0))"
  using inning_AB by (simp add: evaluate_lineup_def new_LineupResult_def simulate_game_def and_then_def)

lemma lineup_BA:
  "evaluate_lineup [new_Player ''B'' 1 0 0 0 0, new_Player ''A'' 1 0 0 0 1] 1 1 (sconst 0)
     = Some (Inr (\<lparr>result_lineup = [new_Player ''B'' 1 0 0 0 0, new_Player ''A'' 1 0 0 0 1],
                    runs_per_game = [2], mean_runs = 2, total_games = 1\<rparr>, sconst 0))"
  using inning_BA by (simp add: evaluate_lineup_def new_LineupResult_def simulate_game_def and_then_def)

lemma ox_BA: "a \<noteq> b \<Longrightarrow> ox_child [b, a] [b, a] 0 (Suc 0) = Inr [b, a]"
  using ox_child_eq [of 0 "Suc 0" "[b, a]" "[b, a]"] by (simp add: slice_def)

lemma crossover_BA:
  "a \<noteq> b \<Longrightarrow> order_crossover [b, a] [b, a] (sconst 0) = Inr ([b, a], sconst 0)"
  by (simp add: order_crossover_def sample_def randbelow_def numeral_2_eq_2 ox_BA)

lemma tournament_first:
  "tournament_size opt = 1 \<Longrightarrow>
     tournament_selection opt [x, y] [f0, f1] (sconst 0) = Inr (x, sconst 0)"
  by (simp add: tournament_selection_def sample_def randbelow_def numeral_2_eq_2 subscript_def
      py_max_def)

lemma no_mutation:
  "mutation_rate opt = 0 \<Longrightarrow> swap_mutation opt lineup (sconst 0) = Inr (lineup, sconst 0)"
  by (simp add: swap_mutation_def random_unit_def)

lemma breed_two:
  assumes "population_size opt = 2" and "tournament_size opt = 1" and "mutation_rate opt = 0"
    and "a \<noteq> b"
  shows "breed opt [[b, a], [a, b]] [f0, f1] [[a, b]] (sconst 0) = Inr ([[a, b], [b, a]], sconst 0)"
proof -
  have "breed opt [[b, a], [a, b]] [f0, f1] ([[a, b]] @ [[b, a]]) (sconst 0)
      = Inr ([[a, b], [b, a]], sconst 0)"
    using assms(1) by (simp add: breed_stop)
  then show ?thesis
    using assms by (subst breed.simps) (simp add: tournament_first crossover_BA no_mutation)
qed

lemma evolve_two:
  "evolve_generation
       ((new_optimizer [new_Player ''A'' 1 0 0 0 1, new_Player ''B'' 1 0 0 0 0] 2 2 0 1)
          \<lparr>population := [[new_Player ''B'' 1 0 0 0 0, new_Player ''A'' 1 0 0 0 1],
                           [new_Player ''A'' 1 0 0 0 1, new_Player ''B'' 1 0 0 0 0]]\<rparr>)
       1 1 (sconst 0)
     = Some (Inr ((([2, 3], 3),
          (new_optimizer [new_Player ''A'' 1 0 0 0 1, new_Player ''B'' 1 0 0 0 0] 2 2 0 1)
             \<lparr>population := [[new_Player ''A'' 1 0 0 0 1, new_Player ''B'' 1 0 0 0 0],
                              [new_Player ''B'' 1 0 0 0 0, new_Player ''A'' 1 0 0 0 1]],
              fitness_cache := [[''B'', ''A''] \<mapsto> 2, [''A'', ''B''] \<mapsto> 3]\<rparr>), sconst 0))"
proof -
  let ?A = "new_Player ''A'' 1 0 0 0 1" and ?B = "new_Player ''B'' 1 0 0 0 0"
  let ?pop = "[[?B, ?A], [?A, ?B]]"
  let ?opt = "(new_optimizer [?A, ?B] 2 2 0 1)\<lparr>population := ?pop\<rparr>"
  let ?opt1 = "?opt\<lparr>fitness_cache := [[''B'', ''A''] \<mapsto> 2]\<rparr>"
  let ?opt2 = "?opt\<lparr>fitness_cache := [[''B'', ''A''] \<mapsto> 2, [''A'', ''B''] \<mapsto> 3]\<rparr>"
  have ne: "?A \<noteq> ?B" by (simp add: new_Player_def)
  have e1: "evaluate_fitness ?opt [?B, ?A] 1 1 (sconst 0)
      = Some (Inr ((2, ?opt1), sconst 0))"
    using lineup_BA
    by (simp add: evaluate_fitness_def and_then_def new_optimizer_def new_Player_def)
  have e2: "evaluate_fitness ?opt1 [?A, ?B] 1 1 (sconst 0) = Some (Inr ((3, ?opt2), sconst 0))"
    using lineup_AB
    by (simp add: evaluate_fitness_def and_then_def new_optimizer_def new_Player_def)
  have ev: "eval_population ?pop ?opt 1 1 [] (sconst 0)
      = Some (Inr (([2, 3], ?opt2), sconst 0))"
    by (simp add: e1 e2 and_then_def)
  have br: "breed ?opt2 ?pop [2, 3] [[?A, ?B]] (sconst 0) = Inr ([[?A, ?B], [?B, ?A]], sconst 0)"
    by (rule breed_two) (simp_all add: new_optimizer_def ne)
  have mx: "py_max (\<lambda>f. f) [2, 3::rat] = Inr 3" by (simp add: py_max_def)
  have ix: "index_of 3 [2, 3::rat] = Inr (Suc 0)" by simp
  have sb: "subscript ?pop 1 = Inr [?A, ?B]" by (simp add: subscript_def)
  have "evolve_generation ?opt 1 1 (sconst 0)
     = Some (Inr ((([2, 3], 3), ?opt2\<lparr>population := [[?A, ?B], [?B, ?A]]\<rparr>), sconst 0))"
    unfolding evolve_generation_def
    by (simp add: ev and_then_def mx ix sb br del: eval_population.simps)
  then show ?thesis by simp
qed

theorem elitism_witness:
  "\<exists>opt' g'. evolve_generation
       ((new_optimizer [new_Player ''A'' 1 0 0 0 1, new_Player ''B'' 1 0 0 0 0] 2 2 0 1)
          \<lparr>population := [[new_Player ''B'' 1 0 0 0 0, new_Player ''A'' 1 0 0 0 1],
                           [new_Player ''A'' 1 0 0 0 1, new_Player ''B'' 1 0 0 0 0]]\<rparr>)
       1 1 (sconst 0) = Some (Inr ((([2, 3], 3), opt'), g'))
     \<and> population opt' ! 0 = [new_Player ''A'' 1 0 0 0 1, new_Player ''B'' 1 0 0 0 0]
     \<and> length (population opt') = 2"
proof -
  let ?A = "new_Player ''A'' 1 0 0 0 1" and ?B = "new_Player ''B'' 1 0 0 0 0"
  let ?opt = "(new_optimizer [?A, ?B] 2 2 0 1)\<lparr>population := [[?B, ?A], [?A, ?B]]\<rparr>"
  let ?opt' = "(new_optimizer [?A, ?B] 2 2 0 1)
             \<lparr>population := [[?A, ?B], [?B, ?A]],
              fitness_cache := [[''B'', ''A''] \<mapsto> 2, [''A'', ''B''] \<mapsto> 3]\<rparr>"
  from elitism [OF evolve_two] obtain best_idx where
    b: "best_idx < length (population ?opt)" "[2, 3::rat] ! best_idx = 3"
    "population ?opt' ! 0 = population ?opt ! best_idx"
    "int (length (population ?opt')) = max 1 (population_size ?opt)"
    by blast
  from b(1,2) have "best_idx = 1" by (cases best_idx) simp_all
  with b(3,4) have "population ?opt' ! 0 = [?A, ?B]" "length (population ?opt') = 2"
    by (simp_all add: new_optimizer_def)
  with evolve_two show ?thesis by blast
qed

subsection \<open>The fitness cache across generations\<close>

lemma evolve_generation_cache:
  assumes "evolve_generation opt num_games innings g = Some (Inr (((fs, best), opt'), g'))"
  shows "fitness_cache opt \<subseteq>\<^sub>m fitness_cache opt'"
proof -
  from evolve_generation_parts [OF assms] obtain opt1 g1 new_population where
    ev: "eval_population (population opt) opt num_games innings [] g = Some (Inr ((fs, opt1), g1))"
    and o: "opt' = opt1\<lparr>population := new_population\<rparr>"
    by blast
  from eval_population_scores [OF ev] o show ?thesis by auto
qed

lemma generations_loop_cache:
  "generations_loop k opt num_games innings history g = Some (Inr ((history', opt'), g')) \<Longrightarrow>
     fitness_cache opt \<subseteq>\<^sub>m fitness_cache opt'"
proof (induction k arbitrary: opt history g)
  case 0
  then show ?case by simp
next
  case (Suc k)
  from Suc.prems obtain fs best opt1 g1 where
    e: "evolve_generation opt num_games innings g = Some (Inr (((fs, best), opt1), g1))"
    and r: "generations_loop k opt1 num_games innings (history @ [best]) g1
              = Some (Inr ((history', opt'), g'))"
    by (auto simp: and_then_def split: option.splits sum.splits)
  from evolve_generation_cache [OF e] Suc.IH [OF r] show ?case by (rule map_le_trans)
qed

text \<open>
  C7. After a call of \<^verbatim>\<open>evaluate_fitness\<close> that returned \<open>fitness\<close> for a lineup,
  the cache holds \<open>fitness\<close> under the tuple of the lineup's names, and every entry it
  held before; if the call was a miss, \<open>fitness\<close> is the mean of the evaluation it ran.
  A second call for any lineup with the same names in the same order returns the same
  \<open>fitness\<close> whatever the game count, inning count and generator, leaves the generator
  and the optimizer as they are (no game is simulated), and does so also after any
  number of generations: no step removes or overwrites an entry.
\<close>

theorem fitness_cache_reuse:
  assumes "evaluate_fitness opt lineup num_games innings g = Some (Inr ((fitness, opt1), g1))"
    and "map name lineup2 = map name lineup"
  shows "fitness_cache opt1 (map name lineup) = Some fitness
     \<and> evaluate_fitness opt1 lineup2 num_games2 innings2 g2 = Some (Inr ((fitness, opt1), g2))
     \<and> fitness_cache opt \<subseteq>\<^sub>m fitness_cache opt1
     \<and> (fitness_cache opt (map name lineup) = None \<longrightarrow>
          (\<exists>result. evaluate_lineup lineup num_games innings g = Some (Inr (result, g1))
             \<and> fitness = mean_runs result
             \<and> fitness_cache opt1 = (fitness_cache opt)(map name lineup \<mapsto> fitness)))
     \<and> (\<forall>k h h' opt2 g3 g4.
          generations_loop k opt1 num_games3 innings3 h g3 = Some (Inr ((h', opt2), g4)) \<longrightarrow>
          evaluate_fitness opt2 lineup2 num_games2 innings2 g2 = Some (Inr ((fitness, opt2), g2)))"
proof -
  from evaluate_fitness_stores [OF assms(1)]
  have st: "fitness_cache opt1 (map name lineup) = Some fitness"
    and le: "fitness_cache opt \<subseteq>\<^sub>m fitness_cache opt1" by simp_all
  have hit: "evaluate_fitness opt1 lineup2 num_games2 innings2 g2 = Some (Inr ((fitness, opt1), g2))"
    using st assms(2) by (simp add: evaluate_fitness_hit)
  have miss: "fitness_cache opt (map name lineup) = None \<longrightarrow>
          (\<exists>result. evaluate_lineup lineup num_games innings g = Some (Inr (result, g1))
             \<and> fitness = mean_runs result
             \<and> fitness_cache opt1 = (fitness_cache opt)(map name lineup \<mapsto> fitness))"
  proof
    assume n: "fitness_cache opt (map name lineup) = None"
    from assms(1) [unfolded evaluate_fitness_miss [OF n]]
    show "\<exists>result. evaluate_lineup lineup num_games innings g = Some (Inr (result, g1))
             \<and> fitness = mean_runs result
             \<and> fitness_cache opt1 = (fitness_cache opt)(map name lineup \<mapsto> fitness)"
      by auto
  qed
  have later: "evaluate_fitness opt2 lineup2 num_games2 innings2 g2 = Some (Inr ((fitness, opt2), g2))"
    if "generations_loop k opt1 num_games3 innings3 h g3 = Some (Inr ((h', opt2), g4))"
    for k h h' opt2 g3 g4
  proof -
    from generations_loop_cache [OF that] st
    have "fitness_cache opt2 (map name lineup) = Some fitness"
      by (auto simp: map_le_def dom_def)
    with assms(2) show ?thesis by (simp add: evaluate_fitness_hit)
  qed
  from st hit le miss later show ?thesis by blast
qed

theorem fitness_cache_reuse_witness:
  "evaluate_fitness (new_optimizer [new_Player ''A'' 1 0 0 0 1, new_Player ''B'' 1 0 0 0 0] 2 2 0 1)
       [new_Player ''A'' 1 0 0 0 1, new_Player ''B'' 1 0 0 0 0] 1 1 (sconst 0)
     = Some (Inr ((3, (new_optimizer [new_Player ''A'' 1 0 0 0 1, new_Player ''B'' 1 0 0 0 0] 2 2 0 1)
                        \<lparr>fitness_cache := [[''A'', ''B''] \<mapsto> 3]\<rparr>), sconst 0))
   \<and> evaluate_fitness ((new_optimizer [new_Player ''A'' 1 0 0 0 1, new_Player ''B'' 1 0 0 0 0] 2 2 0 1)
                        \<lparr>fitness_cache := [[''A'', ''B''] \<mapsto> 3]\<rparr>)
       [new_Player ''A'' 9 9 0 0 0, new_Player ''B'' 1 0 0 0 0] 5 6 (sconst 1)
     = Some (Inr ((3, (new_optimizer [new_Player ''A'' 1 0 0 0 1, new_Player ''B'' 1 0 0 0 0] 2 2 0 1)
                        \<lparr>fitness_cache := [[''A'', ''B''] \<mapsto> 3]\<rparr>), sconst 1))"
proof -
  let ?A = "new_Player ''A'' 1 0 0 0 1" and ?B = "new_Player ''B'' 1 0 0 0 0"
  let ?opt = "new_optimizer [?A, ?B] 2 2 0 1"
  let ?opt1 = "?opt\<lparr>fitness_cache := [[''A'', ''B''] \<mapsto> 3]\<rparr>"
  have first: "evaluate_fitness ?opt [?A, ?B] 1 1 (sconst 0) = Some (Inr ((3, ?opt1), sconst 0))"
    using lineup_AB by (simp add: evaluate_fitness_def and_then_def new_optimizer_def new_Player_def)
  have same: "map name [new_Player ''A'' 9 9 0 0 0, ?B] = map name [?A, ?B]"
    by (simp add: new_Player_def)
  from fitness_cache_reuse [OF first same, of 5 6 "sconst 1"] first show ?thesis by simp
qed

subsection \<open>The seed population\<close>

lemma fill_random_ignores_population:
  "fill_random k (opt\<lparr>population := seeds\<rparr>) pop g = fill_random k opt pop g"
  by (induction k arbitrary: pop g) (simp_all add: create_random_lineup_def split: sum.splits)

lemma initialize_population_ignores_seeds:
  "initialize_population (opt\<lparr>population := seeds\<rparr>) g
     = initialize_population (opt\<lparr>population := []\<rparr>) g"
  by (simp add: initialize_population_def fill_random_ignores_population split: sum.splits)

lemma optimize_ignores_seeds:
  "optimize (opt\<lparr>population := seeds\<rparr>) generations num_games innings verbose g
     = optimize (opt\<lparr>population := []\<rparr>) generations num_games innings verbose g"
  by (simp add: optimize_def initialize_population_ignores_seeds [where seeds = seeds])

lemma inning_outs:
  "simulate_inning [new_Player a 1 0 0 0 0, new_Player c 1 0 0 0 0] 0 (sconst 0)
     = Some (Inr ((0, 1), sconst 0))"
  by (simp add: simulate_inning_def and_then_def inning_loop.simps sim_defs)

lemma lineup_outs_1:
  "evaluate_lineup [new_Player a 1 0 0 0 0, new_Player c 1 0 0 0 0] 1 1 (sconst 0)
     = Some (Inr (\<lparr>result_lineup = [new_Player a 1 0 0 0 0, new_Player c 1 0 0 0 0],
                    runs_per_game = [0], mean_runs = 0, total_games = 1\<rparr>, sconst 0))"
  using inning_outs [of a c]
  by (simp add: evaluate_lineup_def new_LineupResult_def simulate_game_def and_then_def)

lemma lineup_outs_2:
  "evaluate_lineup [new_Player a 1 0 0 0 0, new_Player c 1 0 0 0 0] 2 1 (sconst 0)
     = Some (Inr (\<lparr>result_lineup = [new_Player a 1 0 0 0 0, new_Player c 1 0 0 0 0],
                    runs_per_game = [0, 0], mean_runs = 0, total_games = 2\<rparr>, sconst 0))"
  using inning_outs [of a c]
  by (simp add: evaluate_lineup_def new_LineupResult_def simulate_game_def and_then_def
      numeral_2_eq_2)

text \<open>
  C1, as the code has it. \<^verbatim>\<open>optimize\<close> starts with
  \<^verbatim>\<open>initialize_population\<close>, which draws a fresh population: whatever population the
  optimizer held is never read. At a roster of three players and the seed lineup C, B,
  with a population of one and one generation, \<^verbatim>\<open>run_genetic_phase\<close> seeds the
  population with C, B; \<^verbatim>\<open>optimize\<close> replaces it by the freshly drawn A, C, and the
  generation and the final results are about A, C alone.
\<close>

theorem seeds_discarded:
  "optimize (opt\<lparr>population := seeds\<rparr>) generations num_games innings verbose g
     = optimize (opt\<lparr>population := []\<rparr>) generations num_games innings verbose g
   \<and> initialize_population
        ((new_optimizer [new_Player ''A'' 1 0 0 0 0, new_Player ''B'' 1 0 0 0 0,
                         new_Player ''C'' 1 0 0 0 0] 2 1 0 1)
           \<lparr>population := [[new_Player ''C'' 1 0 0 0 0, new_Player ''B'' 1 0 0 0 0]]\<rparr>)
        (sconst 0)
      = Inr ((new_optimizer [new_Player ''A'' 1 0 0 0 0, new_Player ''B'' 1 0 0 0 0,
                             new_Player ''C'' 1 0 0 0 0] 2 1 0 1)
               \<lparr>population := [[new_Player ''A'' 1 0 0 0 0, new_Player ''C'' 1 0 0 0 0]]\<rparr>,
             sconst 0)
   \<and> run_genetic_phase
        [new_Player ''A'' 1 0 0 0 0, new_Player ''B'' 1 0 0 0 0, new_Player ''C'' 1 0 0 0 0]
        [\<lparr>result_lineup = [new_Player ''C'' 1 0 0 0 0, new_Player ''B'' 1 0 0 0 0],
          runs_per_game = [0], mean_runs = 0, total_games = 1\<rparr>]
        1 1 1 2 1 0 1 False (sconst 0)
      = Some (Inr ([\<lparr>result_lineup = [new_Player ''A'' 1 0 0 0 0, new_Player ''C'' 1 0 0 0 0],
                     runs_per_game = [0, 0], mean_runs = 0, total_games = 2\<rparr>], sconst 0))"
proof -
  let ?A = "new_Player ''A'' 1 0 0 0 0" and ?B = "new_Player ''B'' 1 0 0 0 0"
    and ?C = "new_Player ''C'' 1 0 0 0 0"
  let ?ga = "new_optimizer [?A, ?B, ?C] 2 1 0 1"
  let ?seeded = "?ga\<lparr>population := [[?C, ?B]]\<rparr>"
  let ?opt0 = "?ga\<lparr>population := [[?A, ?C]]\<rparr>"
  let ?opt1 = "?opt0\<lparr>fitness_cache := [[''A'', ''C''] \<mapsto> 0]\<rparr>"
  let ?res = "\<lparr>result_lineup = [?A, ?C], runs_per_game = [0, 0], mean_runs = 0, total_games = 2\<rparr>"
  have init: "initialize_population ?seeded (sconst 0) = Inr (?opt0, sconst 0)"
    by (simp add: initialize_population_def create_random_lineup_def new_optimizer_def
        sample_def randbelow_def numeral_2_eq_2)
  have fit: "evaluate_fitness ?opt0 [?A, ?C] 1 1 (sconst 0) = Some (Inr ((0, ?opt1), sconst 0))"
    using lineup_outs_1 [of "''A''" "''C''"]
    by (simp add: evaluate_fitness_def and_then_def new_optimizer_def new_Player_def)
  have ev: "eval_population [[?A, ?C]] ?opt0 1 1 [] (sconst 0) = Some (Inr (([0], ?opt1), sconst 0))"
    by (simp add: fit and_then_def)
  have br: "breed ?opt1 [[?A, ?C]] [0] [[?A, ?C]] (sconst 0) = Inr ([[?A, ?C]], sconst 0)"
    by (rule breed_stop) (simp add: new_optimizer_def)
  have gen: "evolve_generation ?opt0 1 1 (sconst 0) = Some (Inr ((([0], 0), ?opt1), sconst 0))"
    unfolding evolve_generation_def
    by (simp add: ev and_then_def py_max_def subscript_def br del: eval_population.simps)
  have fin: "final_evaluation [[?A, ?C]] 1 1 [] (sconst 0) = Some (Inr ([?res], sconst 0))"
    using lineup_outs_2 [of "''A''" "''C''"] by (simp add: and_then_def)
  have opt: "optimize ?seeded 1 1 1 False (sconst 0) = Some (Inr (([?res], ?opt1), sconst 0))"
    by (simp add: optimize_def init gen fin and_then_def sorted_results_def
        del: final_evaluation.simps)
  have pad: "pad_population ?seeded 1 (sconst 0) = Inr (?seeded, sconst 0)"
    by (subst pad_population.simps) simp
  have run: "run_genetic_phase [?A, ?B, ?C]
        [\<lparr>result_lineup = [?C, ?B], runs_per_game = [0], mean_runs = 0, total_games = 1\<rparr>]
        1 1 1 2 1 0 1 False (sconst 0) = Some (Inr ([?res], sconst 0))"
    by (simp add: run_genetic_phase_def pad opt and_then_def)
  from optimize_ignores_seeds init run show ?thesis by blast
qed

end
